theory Spec2Isabelle
  imports Complex_Main "HOL-Library.Word"
begin

unbundle bit_operations_syntax

section \<open>Machine types\<close>

text \<open>
  The firmware targets a 32-bit core: \<open>int\<close> has 32 bits, so every operand of type
  \<open>uint8_t\<close>, \<open>int16_t\<close> or \<open>uint16_t\<close> is promoted to \<open>int\<close> before arithmetic and
  comparison.  Stored values are words; promoted values are read with \<open>uint\<close> (unsigned
  types) or \<open>sint\<close> (signed types).
\<close>

type_synonym byte = "8 word"
type_synonym u16 = "16 word"
type_synonym s16 = "16 word"
type_synonym u32 = "32 word"

section \<open>BitmapCanvas\<close>

text \<open>
  The class \<open>BitmapCanvas\<close>.  The field \<open>data\<close> is \<open>None\<close> for the null pointer and
  otherwise holds the bytes of the allocated block.
\<close>

record BitmapCanvas =
  width :: u16
  height :: u16
  bytesPerLine :: u16
  data :: "byte list option"

text \<open>
  The constructor.  The argument \<open>mem\<close> is what \<open>malloc\<close> hands back: \<open>None\<close> when the
  allocation fails, otherwise the (uninitialised) block of \<open>bytesPerLine * height\<close>
  bytes.
\<close>

definition newBitmapCanvas :: "u16 \<Rightarrow> u16 \<Rightarrow> byte list option \<Rightarrow> BitmapCanvas" where
  "newBitmapCanvas w h mem =
     (case mem of
        None \<Rightarrow> \<lparr>width = 0, height = 0, bytesPerLine = 0, data = None\<rparr>
      | Some blk \<Rightarrow> \<lparr>width = w, height = h, bytesPerLine = w div 8, data = Some blk\<rparr>)"

text \<open>What the constructor establishes, given that \<open>malloc\<close> returns a block of the size asked for.\<close>

definition canvas_ok :: "BitmapCanvas \<Rightarrow> bool" where
  "canvas_ok c =
     (bytesPerLine c = width c div 8 \<and>
      (case data c of
         None \<Rightarrow> width c = 0 \<and> height c = 0
       | Some buf \<Rightarrow> length buf = unat (bytesPerLine c) * unat (height c)))"

text \<open>\<open>clear\<close>: \<open>memset\<close> of the whole block to 0.\<close>

definition clear :: "BitmapCanvas \<Rightarrow> BitmapCanvas" where
  "clear c =
     (case data c of
        None \<Rightarrow> c
      | Some buf \<Rightarrow> c\<lparr>data := Some (replicate (unat (bytesPerLine c) * unat (height c)) 0)\<rparr>)"

text \<open>
  What C++ leaves undefined, and what real numbers cannot express, is a value of the
  model: a function that can run into it returns \<open>Inl\<close> of the fault and \<open>Inr\<close> of its result
  otherwise.  \<open>BufferOverrun\<close> is a load or store outside an allocated block,
  \<open>DivideByZero\<close> an integer division by zero, \<open>ConversionOverflow\<close> the conversion to an
  integer type of a floating-point value outside its range, and \<open>NotANumber\<close> a
  floating-point division of zero by zero.
\<close>

datatype fault = BufferOverrun | DivideByZero | ConversionOverflow | NotANumber

text \<open>
  \<open>setPixel\<close>.  The guard compares the promoted values.  Past the guard
  \<open>0 \<le> x \<le> 32767\<close> and \<open>0 \<le> y \<le> 32767\<close>, so \<open>x / 8 + y * bytesPerLine\<close> stays below
  \<open>2^31\<close> and the conversion to \<open>uint32_t\<close> keeps its value.
\<close>

definition setPixel :: "BitmapCanvas \<Rightarrow> s16 \<Rightarrow> s16 \<Rightarrow> fault + BitmapCanvas" where
  "setPixel c x y =
     (case data c of
        None \<Rightarrow> Inr c
      | Some buf \<Rightarrow>
          if sint x < 0 \<or> sint x \<ge> uint (width c) \<or> sint y < 0 \<or> sint y \<ge> uint (height c)
          then Inr c
          else
            let byteIndex = nat (sint x div 8 + sint y * uint (bytesPerLine c));
                bitPosition = (ucast (x AND 7) :: byte)
            in if byteIndex < length buf
               then Inr (c\<lparr>data := Some (buf[byteIndex := (buf ! byteIndex) OR drop_bit (unat bitPosition) 0x80])\<rparr>)
               else Inl BufferOverrun)"

text \<open>A 16 by 2 canvas with an all-white buffer, for the concrete instances below.\<close>

definition demo_canvas :: BitmapCanvas where
  "demo_canvas = newBitmapCanvas 16 2 (Some [0, 0, 0, 0])"

section \<open>Line drawing\<close>

text \<open>
  Error propagation for a sequence of \<open>setPixel\<close> calls: once a call has left the block,
  nothing further is modelled.
\<close>

definition paint :: "fault + BitmapCanvas \<Rightarrow> s16 \<Rightarrow> s16 \<Rightarrow> fault + BitmapCanvas" where
  "paint r x y = (case r of Inl e \<Rightarrow> Inl e | Inr c \<Rightarrow> setPixel c x y)"

text \<open>
  The "thick point" at the head of the loop body of \<open>drawLine\<close>: \<open>halfThick\<close> is
  \<open>thickness / 2\<close> (at most 127), and the two \<open>for\<close> loops run \<open>ty\<close> (outer) and \<open>tx\<close> (inner)
  from \<open>-halfThick\<close> to \<open>halfThick\<close> inclusive.  The sums \<open>x0 + tx\<close> and \<open>y0 + ty\<close> are
  computed in \<open>int\<close> and converted to the \<open>int16_t\<close> parameters of \<open>setPixel\<close>, which keeps
  the low 16 bits: word addition.
\<close>

definition drawThickPoint :: "BitmapCanvas \<Rightarrow> s16 \<Rightarrow> s16 \<Rightarrow> byte \<Rightarrow> fault + BitmapCanvas" where
  "drawThickPoint c x0 y0 thickness =
     (let halfThick = uint thickness div 2 in
      foldl (\<lambda>r ty.
          foldl (\<lambda>r tx. paint r (x0 + word_of_int tx) (y0 + word_of_int ty))
            r [- halfThick .. halfThick])
        (Inr c) [- halfThick .. halfThick])"

text \<open>
  The coordinates that pass the guard of \<open>setPixel\<close>.
\<close>

definition in_canvas :: "BitmapCanvas \<Rightarrow> s16 \<Rightarrow> s16 \<Rightarrow> bool" where
  "in_canvas c x y = (0 \<le> sint x \<and> sint x < uint (width c) \<and> 0 \<le> sint y \<and> sint y < uint (height c))"

text \<open>
  Reading a pixel.  The class has no reader; this is the layout its writer uses and the
  raster format prescribes: pixel \<open>(x, y)\<close> is bit \<open>7 - (x mod 8)\<close> of byte
  \<open>x / 8 + y * bytesPerLine\<close>.  It is meant for coordinates inside the canvas.
\<close>

definition pixelBlack :: "BitmapCanvas \<Rightarrow> s16 \<Rightarrow> s16 \<Rightarrow> bool" where
  "pixelBlack c x y =
     (case data c of
        None \<Rightarrow> False
      | Some buf \<Rightarrow> bit (buf ! nat (sint x div 8 + sint y * uint (bytesPerLine c))) (7 - nat (sint x mod 8)))"

text \<open>
  \<open>painted c c' S\<close>: canvas \<open>c'\<close> has the geometry of \<open>c\<close>, and inside the canvas its black
  pixels are those of \<open>c\<close> together with the members of \<open>S\<close>.
\<close>

definition painted :: "BitmapCanvas \<Rightarrow> BitmapCanvas \<Rightarrow> (s16 \<times> s16) set \<Rightarrow> bool" where
  "painted c c' S =
     (canvas_ok c' \<and> width c' = width c \<and> height c' = height c \<and>
      (\<forall>px py. in_canvas c px py \<longrightarrow> pixelBlack c' px py = (pixelBlack c px py \<or> (px, py) \<in> S)))"

text \<open>
  The coordinates the thick point passes to \<open>setPixel\<close>: offsets \<open>-h .. h\<close> on both axes
  around \<open>(x0, y0)\<close>, a square of side \<open>2 * h + 1\<close>.
\<close>

definition stamp_square :: "s16 \<Rightarrow> s16 \<Rightarrow> int \<Rightarrow> (s16 \<times> s16) set" where
  "stamp_square x0 y0 h =
     (\<lambda>(tx, ty). (x0 + word_of_int tx, y0 + word_of_int ty)) ` ({- h .. h} \<times> {- h .. h})"

text \<open>
  The tail of the loop body of \<open>drawLine\<close>, after the \<open>break\<close> test: one step of the
  error-driven walk.  \<open>e2 = 2 * err\<close>, \<open>err += dy\<close>, \<open>x0 += sx\<close> and the like are computed in
  \<open>int\<close> and stored to \<open>int16_t\<close>, which wraps; comparisons are signed.
\<close>

definition bresenham_next :: "s16 \<Rightarrow> s16 \<Rightarrow> s16 \<Rightarrow> s16 \<Rightarrow> s16 \<times> s16 \<times> s16 \<Rightarrow> s16 \<times> s16 \<times> s16" where
  "bresenham_next dx dy sx sy st =
     (case st of (x0, y0, err) \<Rightarrow>
        let e2 = 2 * err;
            (err, x0) = (if sint e2 \<ge> sint dy then (err + dy, x0 + sx) else (err, x0));
            (err, y0) = (if sint e2 \<le> sint dx then (err + dx, y0 + sy) else (err, y0))
        in (x0, y0, err))"

text \<open>
  The loop \<open>while (true)\<close> of \<open>drawLine\<close>.  With 16-bit wrap-around the walk need not ever
  reach \<open>(x1, y1)\<close>, so the loop is a partial function: \<open>None\<close> means that it does not
  return.
\<close>

partial_function (option) drawLine_loop ::
  "s16 \<Rightarrow> s16 \<Rightarrow> s16 \<Rightarrow> s16 \<Rightarrow> s16 \<Rightarrow> s16 \<Rightarrow> byte \<Rightarrow> BitmapCanvas \<Rightarrow> s16 \<times> s16 \<times> s16
     \<Rightarrow> (fault + BitmapCanvas) option"
where
  "drawLine_loop x1 y1 dx dy sx sy thickness c st =
     (case st of (x0, y0, err) \<Rightarrow>
       (case drawThickPoint c x0 y0 thickness of
          Inl e \<Rightarrow> Some (Inl e)
        | Inr c' \<Rightarrow>
            if x0 = x1 \<and> y0 = y1 then Some (Inr c')
            else drawLine_loop x1 y1 dx dy sx sy thickness c' (bresenham_next dx dy sx sy st)))"

declare drawLine_loop.simps [code]

text \<open>
  \<open>drawLine\<close>: \<open>abs(x1 - x0)\<close> and \<open>-abs(y1 - y0)\<close> are computed in \<open>int\<close> and stored to
  \<open>int16_t\<close>.
\<close>

definition drawLine :: "BitmapCanvas \<Rightarrow> s16 \<Rightarrow> s16 \<Rightarrow> s16 \<Rightarrow> s16 \<Rightarrow> byte \<Rightarrow> (fault + BitmapCanvas) option" where
  "drawLine c x0 y0 x1 y1 thickness =
     (let dx = (word_of_int \<bar>sint x1 - sint x0\<bar> :: s16);
          dy = (word_of_int (- \<bar>sint y1 - sint y0\<bar>) :: s16);
          sx = (if sint x0 < sint x1 then 1 else - 1 :: s16);
          sy = (if sint y0 < sint y1 then 1 else - 1 :: s16);
          err = dx + dy
      in drawLine_loop x1 y1 dx dy sx sy thickness c (x0, y0, err))"

text \<open>
  The state \<open>(x0, y0, err)\<close> at the head of the loop body after \<open>k\<close> steps.
\<close>

definition line_point :: "s16 \<Rightarrow> s16 \<Rightarrow> s16 \<Rightarrow> s16 \<Rightarrow> s16 \<times> s16 \<times> s16 \<Rightarrow> nat \<Rightarrow> s16 \<times> s16 \<times> s16" where
  "line_point dx dy sx sy st k = ((bresenham_next dx dy sx sy) ^^ k) st"

text \<open>
  The \<open>break\<close> test of the loop.
\<close>

definition at_end :: "s16 \<Rightarrow> s16 \<Rightarrow> s16 \<times> s16 \<times> s16 \<Rightarrow> bool" where
  "at_end x1 y1 st = (fst st = x1 \<and> fst (snd st) = y1)"

text \<open>
  The square stamped at a loop state.
\<close>

definition stamp_at :: "int \<Rightarrow> s16 \<times> s16 \<times> s16 \<Rightarrow> (s16 \<times> s16) set" where
  "stamp_at h st = stamp_square (fst st) (fst (snd st)) h"

text \<open>
  The same for a call of \<open>drawLine\<close>, from its initial state.
\<close>

definition drawLine_point :: "s16 \<Rightarrow> s16 \<Rightarrow> s16 \<Rightarrow> s16 \<Rightarrow> nat \<Rightarrow> s16 \<times> s16 \<times> s16" where
  "drawLine_point x0 y0 x1 y1 k =
     (let dx = (word_of_int \<bar>sint x1 - sint x0\<bar> :: s16);
          dy = (word_of_int (- \<bar>sint y1 - sint y0\<bar>) :: s16);
          sx = (if sint x0 < sint x1 then 1 else - 1 :: s16);
          sy = (if sint y0 < sint y1 then 1 else - 1 :: s16);
          err = dx + dy
      in line_point dx dy sx sy (x0, y0, err) k)"

text \<open>
  The black pixels of a canvas, row by row.
\<close>

definition blackPixels :: "BitmapCanvas \<Rightarrow> (nat \<times> nat) list" where
  "blackPixels c =
     concat (map (\<lambda>y. concat (map (\<lambda>x. if pixelBlack c (of_nat x) (of_nat y) then [(x, y)] else [])
                                  [0 ..< unat (width c)]))
                 [0 ..< unat (height c)])"

text \<open>
  An all-white canvas of 8 by 3 pixels.
\<close>

definition white_8x3 :: BitmapCanvas where
  "white_8x3 = newBitmapCanvas 8 3 (Some [0, 0, 0])"

section \<open>ThermalPrinter\<close>

text \<open>
  The serial port, seen from the driver.  The only operation whose result the driver
  reads is \<open>serial.write(buffer, length)\<close>, which reports how many bytes it accepted.
  The port's state is the log of the write calls made so far, each with the bytes offered
  and the count accepted.  How much the port accepts is not in the driver's hands: it
  is a parameter \<open>room\<close>, giving for the \<open>k\<close>-th write call (from 0) the number of bytes
  the port has room for.  \<open>flush\<close> and \<open>delay\<close> transfer nothing and are left out.
\<close>

type_synonym write_call = "byte list \<times> nat"

record Serial =
  tx :: "write_call list"

text \<open>
  \<open>serial.write(buffer, length)\<close>.
\<close>

definition serial_write :: "(nat \<Rightarrow> nat) \<Rightarrow> Serial \<Rightarrow> byte list \<Rightarrow> nat \<times> Serial" where
  "serial_write room s bytes =
     (let written = min (length bytes) (room (length (tx s)))
      in (written, s\<lparr>tx := tx s @ [(bytes, written)]\<rparr>))"

text \<open>
  \<open>sendCommand\<close>: true when the write accepted the whole command.
\<close>

definition sendCommand :: "(nat \<Rightarrow> nat) \<Rightarrow> Serial \<Rightarrow> byte list \<Rightarrow> bool \<times> Serial" where
  "sendCommand room s cmd =
     (case serial_write room s cmd of (written, s') \<Rightarrow> (written = length cmd, s'))"

text \<open>
  The chunk loop of \<open>printBitmap\<close>.  \<open>totalBytes\<close> and \<open>sent\<close> are \<open>size_t\<close> values below
  \<open>2^30\<close> (at most \<open>8191 * 65535\<close>), so natural numbers model them.  The loop resumes after
  the bytes the port accepted; a port that keeps accepting nothing keeps it running, so
  the loop is a partial function and \<open>None\<close> means that it does not return.  The chunk is read
  from \<open>bitmapData + sent\<close>; reading past the end of the buffer is a fault.
\<close>

partial_function (option) printBitmap_loop ::
  "(nat \<Rightarrow> nat) \<Rightarrow> byte list \<Rightarrow> nat \<Rightarrow> nat \<Rightarrow> Serial \<Rightarrow> (fault + Serial) option"
where
  "printBitmap_loop room bitmapData totalBytes sent s =
     (if sent < totalBytes then
        let chunkSize = min 512 (totalBytes - sent) in
        if sent + chunkSize > length bitmapData then Some (Inl BufferOverrun)
        else
          case serial_write room s (take chunkSize (drop sent bitmapData)) of
            (written, s') \<Rightarrow> printBitmap_loop room bitmapData totalBytes (sent + written) s'
      else Some (Inr s))"

declare printBitmap_loop.simps [code]

text \<open>
  The command bytes of \<open>printBitmap\<close>: \<open>GS\<close> is 0x1D, \<open>'v'\<close> is 0x76, \<open>'0'\<close> is 0x30.
\<close>

definition raster_header :: "u16 \<Rightarrow> u16 \<Rightarrow> byte list" where
  "raster_header widthBytes ht =
     [0x1D, 0x76, 0x30, 0x00,
      ucast (widthBytes AND 0xFF), ucast (drop_bit 8 widthBytes AND 0xFF),
      ucast (ht AND 0xFF), ucast (drop_bit 8 ht AND 0xFF)]"

text \<open>
  \<open>printBitmap\<close>.  The result is the returned flag and the port.
\<close>

definition printBitmap ::
  "(nat \<Rightarrow> nat) \<Rightarrow> Serial \<Rightarrow> u16 \<Rightarrow> u16 \<Rightarrow> byte list \<Rightarrow> (fault + bool \<times> Serial) option" where
  "printBitmap room s wd ht bitmapData =
     (let widthBytes = wd div 8;
          cmd = raster_header widthBytes ht
      in case sendCommand room s cmd of
           (ok, s1) \<Rightarrow>
             if \<not> ok then Some (Inr (False, s1))
             else
               let totalBytes = unat widthBytes * unat ht in
               case printBitmap_loop room bitmapData totalBytes 0 s1 of
                 None \<Rightarrow> None
               | Some (Inl e) \<Rightarrow> Some (Inl e)
               | Some (Inr s2) \<Rightarrow> Some (Inr (True, s2)))"

text \<open>
  The \<open>j\<close>-th chunk write of a transfer in which every write is accepted whole: the
  512 bytes from offset \<open>512 * j\<close>, or what is left of the payload.
\<close>

definition chunk_call :: "byte list \<Rightarrow> nat \<Rightarrow> nat \<Rightarrow> write_call" where
  "chunk_call bitmapData totalBytes j =
     (take (min 512 (totalBytes - 512 * j)) (drop (512 * j) bitmapData), min 512 (totalBytes - 512 * j))"

text \<open>
  A port that takes the 8 header bytes and nothing afterwards.
\<close>

definition stalled_room :: "nat \<Rightarrow> nat" where
  "stalled_room k = (if k = 0 then 8 else 0)"

text \<open>
  A port that takes the 8 header bytes, nothing at the next write, and 512 bytes per
  write from then on.
\<close>

definition hiccup_room :: "nat \<Rightarrow> nat" where
  "hiccup_room k = (if k = 0 then 8 else if k = 1 then 0 else 512)"

text \<open>
  The value of \<open>sent\<close> after \<open>n\<close> further iterations of the chunk loop, when the next write
  is the \<open>k\<close>-th of the port: each iteration adds what the port accepts of the chunk
  offered.  The loop ends once it reaches \<open>totalBytes\<close>.
\<close>

fun sent_after :: "(nat \<Rightarrow> nat) \<Rightarrow> nat \<Rightarrow> nat \<Rightarrow> nat \<Rightarrow> nat \<Rightarrow> nat" where
  "sent_after room totalBytes k sent 0 = sent"
| "sent_after room totalBytes k sent (Suc n) =
     sent_after room totalBytes (Suc k) (sent + min (min 512 (totalBytes - sent)) (room k)) n"

text \<open>
  A run of chunk writes that resumes after the bytes accepted: each write offers the
  next 512 bytes (or what is left) from the offset that the counts accepted so far add up
  to, and the run ends when that offset has reached \<open>totalBytes\<close>.
\<close>

fun resumed_chunks :: "byte list \<Rightarrow> nat \<Rightarrow> nat \<Rightarrow> write_call list \<Rightarrow> bool" where
  "resumed_chunks bitmapData totalBytes sent [] = (\<not> sent < totalBytes)"
| "resumed_chunks bitmapData totalBytes sent ((bytes, written) # calls) =
     (sent < totalBytes \<and>
      bytes = take (min 512 (totalBytes - sent)) (drop sent bitmapData) \<and>
      written \<le> length bytes \<and>
      resumed_chunks bitmapData totalBytes (sent + written) calls)"

section \<open>Command-channel packets\<close>

text \<open>
  The struct \<open>DataPacket\<close> of the command channel.  Its array \<open>data[32]\<close> is the field
  \<open>packet_data\<close> here, the name \<open>data\<close> being taken by the canvas.
\<close>

record DataPacket =
  header :: byte
  command :: byte
  dataLength :: byte
  packet_data :: "byte list"
  checksum :: byte

text \<open>
  \<open>sendPacket\<close>.  The result is the sequence of bytes handed to \<open>serial.write\<close>, in order:
  header, command, length, \<open>len\<close> payload bytes, checksum.  \<open>memcpy\<close> of more than 32 bytes
  into \<open>packet.data\<close>, or of more bytes than the caller's array holds, is a fault.  The
  checksum starts from \<open>0xAA ^ cmd ^ len\<close> and takes in \<open>data[0]\<close> to \<open>data[len - 1]\<close>.
\<close>

definition sendPacket :: "byte \<Rightarrow> byte list \<Rightarrow> byte \<Rightarrow> fault + byte list" where
  "sendPacket cmd dat len =
     (if unat len > 32 \<or> unat len > length dat then Inl BufferOverrun
      else
        let pdata = take (unat len) dat;
            cks = foldl (XOR) (0xAA XOR cmd XOR len) (take (unat len) dat)
        in Inr ([0xAA, cmd, len] @ pdata @ [cks]))"

text \<open>
  \<open>receivePacket\<close>.  The argument \<open>rx\<close> is the receive queue of the port: the bytes that
  have arrived or arrive before the 1000 ms wait expires, so a frame whose declared length
  exceeds what the queue holds ends in the time-out and is refused.  The result is the
  returned flag, the packet as the call leaves it, and the bytes left in the queue.
\<close>

definition receivePacket :: "byte list \<Rightarrow> DataPacket \<Rightarrow> bool \<times> DataPacket \<times> byte list" where
  "receivePacket rx packet =
     (if length rx < 4 then (False, packet, rx)
      else if hd rx \<noteq> 0xAA then (False, packet, tl rx)
      else
        let packet = packet\<lparr>header := 0xAA\<rparr>;
            packet = packet\<lparr>command := rx ! 1\<rparr>;
            packet = packet\<lparr>dataLength := rx ! 2\<rparr>;
            rx = drop 3 rx
        in if unat (dataLength packet) > 32 then (False, packet, rx)
           else if length rx < unat (dataLength packet) + 1 then (False, packet, rx)
           else
             let n = unat (dataLength packet);
                 packet = packet\<lparr>packet_data := take n rx @ drop n (packet_data packet)\<rparr>;
                 packet = packet\<lparr>checksum := rx ! n\<rparr>;
                 rx = drop (n + 1) rx;
                 calc_checksum = foldl (XOR) (0xAA XOR command packet XOR dataLength packet)
                                   (take n (packet_data packet))
             in (calc_checksum = checksum packet, packet, rx))"

text \<open>
  A zeroed packet for the receiver to fill.
\<close>

definition blank_packet :: DataPacket where
  "blank_packet = \<lparr>header = 0, command = 0, dataLength = 0, packet_data = replicate 32 0, checksum = 0\<rparr>"

text \<open>
  The frame the framing rule prescribes for command \<open>C\<close>, length byte \<open>L\<close> and payload
  \<open>P\<close>: the checksum is \<open>0xAA XOR C XOR L XOR P[0] XOR ... XOR P[L-1]\<close>.
\<close>

definition frame_bytes :: "byte \<Rightarrow> byte \<Rightarrow> byte list \<Rightarrow> byte list" where
  "frame_bytes C L P = [0xAA, C, L] @ P @ [0xAA XOR C XOR L XOR foldr (XOR) P 0]"

section \<open>GraphGenerator\<close>

text \<open>
  Single-precision values are modelled by the real numbers they denote.  An arithmetic
  operation on them delivers the exact result rounded to single precision; the rounding
  is the parameter \<open>rnd\<close> of every function that computes with them, and nothing is
  assumed about it unless a theorem says so.  A 16-bit integer converts to single
  precision exactly (24 significant bits), and so do the literals 0, 3.0 and 8.0;
  comparisons are exact.  Values that are not numbers do not arise on the paths modelled.

  The class \<open>GraphGenerator\<close>.  Its fields \<open>width\<close> and \<open>height\<close> are \<open>gwidth\<close> and
  \<open>gheight\<close> here, the names being taken by the canvas; \<open>canvas\<close> is \<open>None\<close> for the null
  pointer.
\<close>

record GraphGenerator =
  canvas :: "BitmapCanvas option"
  gwidth :: u16
  gheight :: u16
  leftMargin :: u16
  topMargin :: u16
  xMax :: u16
  xStep :: u16
  yMax :: u16
  yStep :: u16
  gridXSpacing :: u16
  gridYSpacing :: u16
  graphWidth :: u16
  graphStartX :: u16
  graphStartY :: u16
  randSeed :: u32

text \<open>
  The constructor.  Its last argument is what \<open>micros()\<close> returns when the constructor runs:
  the seed is read from the timer, there is no parameter for it.  \<open>yMax / yStep\<close> is an
  integer division; \<open>gridYSpacing * (yMax / yStep)\<close> is stored to 16 bits.
\<close>

definition newGraphGenerator ::
  "BitmapCanvas option \<Rightarrow> u16 \<Rightarrow> u16 \<Rightarrow> u16 \<Rightarrow> u16 \<Rightarrow> u16 \<Rightarrow> u16 \<Rightarrow> u16 \<Rightarrow> u16 \<Rightarrow> u16 \<Rightarrow> u16
     \<Rightarrow> u32 \<Rightarrow> fault + GraphGenerator" where
  "newGraphGenerator cnv w h lm tm xmax xstp ymax ystp gridX gridY micros =
     (if ystp = 0 then Inl DivideByZero
      else Inr \<lparr>canvas = cnv, gwidth = w, gheight = h, leftMargin = lm, topMargin = tm,
                xMax = xmax, xStep = xstp, yMax = ymax, yStep = ystp,
                gridXSpacing = gridX, gridYSpacing = gridY,
                graphWidth = gridY * (ymax div ystp), graphStartX = lm, graphStartY = tm,
                randSeed = micros\<rparr>)"

text \<open>
  \<open>random_float\<close>: the seed advances in unsigned 32-bit arithmetic and is masked to 31
  bits; \<open>(float)randSeed\<close> and the constant \<open>0x7FFFFFFF\<close> are rounded to single precision
  before the division.  The result is the value drawn and the generator with its new
  seed.
\<close>

definition random_float :: "(real \<Rightarrow> real) \<Rightarrow> GraphGenerator \<Rightarrow> real \<Rightarrow> real \<Rightarrow> real \<times> GraphGenerator" where
  "random_float rnd g min_val max_val =
     (let seed = (1103515245 * randSeed g + 12345) AND 0x7FFFFFFF;
          r = rnd (rnd (real (unat seed)) / rnd 2147483647)
      in (rnd (min_val + rnd (r * rnd (max_val - min_val))), g\<lparr>randSeed := seed\<rparr>))"

text \<open>
  Modelled from the spec: the macro \<open>constrain\<close> belongs to the Arduino core and is not
  among the sources.  The spec says that all values are clamped to \<open>[0, Ymax]\<close>; this
  is the core's macro \<open>((amt)<(low)?(low):((amt)>(high)?(high):(amt)))\<close>, which the conversion
  guide among the sources equates with \<open>max(0, min(200, v))\<close>.
\<close>

definition constrain :: "real \<Rightarrow> real \<Rightarrow> real \<Rightarrow> real" where
  "constrain amt low high = (if amt < low then low else if amt > high then high else amt)"

text \<open>
  The body of the rise loops of \<open>generateBuildUpCurve\<close> at index \<open>i\<close>: pattern 1 squares
  the progress and draws noise from \<open>[-3, 3]\<close>, pattern 2 is linear with noise from
  \<open>[-8, 8]\<close>.
\<close>

definition rise_value :: "(real \<Rightarrow> real) \<Rightarrow> byte \<Rightarrow> nat \<Rightarrow> GraphGenerator \<Rightarrow> nat \<Rightarrow> real \<times> GraphGenerator" where
  "rise_value rnd pattern risePoints g i =
     (let progress = rnd (real i / real risePoints);
          baseValue = (if pattern = 1 then rnd (real (unat (yMax g)) * rnd (progress * progress))
                       else rnd (real (unat (yMax g)) * progress));
          (noise, g') = (if pattern = 1 then random_float rnd g (- 3) 3 else random_float rnd g (- 8) 8)
      in (constrain (rnd (baseValue + noise)) 0 (real (unat (yMax g))), g'))"

text \<open>
  The rise loop over the indices given, threading the generator through the draws.
\<close>

fun rise_loop :: "(real \<Rightarrow> real) \<Rightarrow> byte \<Rightarrow> nat \<Rightarrow> GraphGenerator \<Rightarrow> nat list \<Rightarrow> real list \<times> GraphGenerator" where
  "rise_loop rnd pattern risePoints g [] = ([], g)"
| "rise_loop rnd pattern risePoints g (i # is) =
     (case rise_value rnd pattern risePoints g i of
        (v, g') \<Rightarrow>
          (case rise_loop rnd pattern risePoints g' is of (vs, g'') \<Rightarrow> (v # vs, g'')))"

text \<open>
  \<open>generateBuildUpCurve\<close>.  \<open>alloc_ok\<close> says whether \<open>malloc\<close> returned a block; the result
  is \<open>None\<close> for the null pointer.  \<open>numPoints * 26\<close> is computed in \<open>int\<close> and the quotient
  by 30 fits 16 bits.
\<close>

definition generateBuildUpCurve ::
  "(real \<Rightarrow> real) \<Rightarrow> GraphGenerator \<Rightarrow> u16 \<Rightarrow> byte \<Rightarrow> bool \<Rightarrow> real list option \<times> GraphGenerator" where
  "generateBuildUpCurve rnd g numPoints pattern alloc_ok =
     (if \<not> alloc_ok then (None, g)
      else
        let risePoints = (unat numPoints * 26) div 30 in
        if pattern = 1 \<or> pattern = 2 then
          case rise_loop rnd pattern risePoints g [0 ..< risePoints] of
            (rise, g') \<Rightarrow> (Some (rise @ replicate (unat numPoints - risePoints) 0), g')
        else (None, g))"

text \<open>
  The generator of the reference sketch (512 by 1200, margins 30 and 70, axes 30 by 2 and
  200 by 25, grid 80 by 60) holding a given seed.
\<close>

definition demo_generator :: "u32 \<Rightarrow> GraphGenerator" where
  "demo_generator seed =
     \<lparr>canvas = None, gwidth = 512, gheight = 1200, leftMargin = 30, topMargin = 70,
      xMax = 30, xStep = 2, yMax = 200, yStep = 25, gridXSpacing = 80, gridYSpacing = 60,
      graphWidth = 480, graphStartX = 30, graphStartY = 70, randSeed = seed\<rparr>"

section \<open>GraphGenerator: reduction and smoothing\<close>

text \<open>
  \<open>drawCurve\<close> plots into \<open>graphHeight = height - graphStartY\<close> rows (16-bit arithmetic).
\<close>

definition graphHeight :: "GraphGenerator \<Rightarrow> u16" where
  "graphHeight g = gheight g - graphStartY g"






text \<open>
  The inner loop of \<open>applyMovingAverage\<close>,
  \<open>for (int16_t j = i - half; j <= i + half; j++)\<close>, from the state \<open>(j, sum, count)\<close>.
  The test compares the promoted \<open>j\<close> with the \<open>int\<close> value \<open>bound = i + half\<close>; \<open>j++\<close> wraps
  in 16 bits, so the loop need not end, and its result is optional.  An entry with
  \<open>0 <= j < dataLen\<close> is added to the sum (rounded) and counted.
\<close>

partial_function (option) window_sum ::
  "(real \<Rightarrow> real) \<Rightarrow> real list \<Rightarrow> u16 \<Rightarrow> int \<Rightarrow> s16 \<times> real \<times> u16 \<Rightarrow> (fault + real \<times> u16) option"
where
  "window_sum rnd dat dataLen bound st =
     (case st of (j, sum_v, count) \<Rightarrow>
        if sint j \<le> bound then
          (if 0 \<le> sint j \<and> sint j < uint dataLen then
             (if nat (sint j) < length dat
              then window_sum rnd dat dataLen bound (j + 1, rnd (sum_v + dat ! nat (sint j)), count + 1)
              else Some (Inl BufferOverrun))
           else window_sum rnd dat dataLen bound (j + 1, sum_v, count))
        else Some (Inr (sum_v, count)))"

declare window_sum.simps [code]

text \<open>
  One round of the outer loop: \<open>j\<close> starts at \<open>i - half\<close> converted to 16 bits, and
  \<open>temp[i] = sum / count\<close>.
\<close>

definition average_at :: "(real \<Rightarrow> real) \<Rightarrow> real list \<Rightarrow> u16 \<Rightarrow> int \<Rightarrow> nat \<Rightarrow> (fault + real) option" where
  "average_at rnd dat dataLen half i =
     (case window_sum rnd dat dataLen (int i + half) (word_of_int (int i - half), 0, 0) of
        None \<Rightarrow> None
      | Some (Inl e) \<Rightarrow> Some (Inl e)
      | Some (Inr (sum_v, count)) \<Rightarrow>
          if count = 0 then Some (Inl NotANumber)
          else Some (Inr (rnd (sum_v / real (unat count)))))"

text \<open>
  The rounds of a loop in order: the loop stops at the first round that faults or does
  not return.
\<close>

fun run_all :: "(fault + 'a) option list \<Rightarrow> (fault + 'a list) option" where
  "run_all [] = Some (Inr [])"
| "run_all (None # rs) = None"
| "run_all (Some (Inl e) # rs) = Some (Inl e)"
| "run_all (Some (Inr x) # rs) =
     (case run_all rs of None \<Rightarrow> None | Some (Inl e) \<Rightarrow> Some (Inl e) | Some (Inr xs) \<Rightarrow> Some (Inr (x # xs)))"

text \<open>
  \<open>applyMovingAverage\<close> on an array that is there (\<open>data\<close> is not null), returning the
  contents of \<open>data\<close> on exit; \<open>temp_ok\<close> tells whether the scratch buffer \<open>temp\<close> could be
  allocated.  With a window below 2, or without scratch buffer, \<open>data\<close> is left as it is.
  Otherwise every average is taken from the old contents and the first \<open>dataLen\<close> entries
  are overwritten at the end.
\<close>

definition applyMovingAverage ::
  "(real \<Rightarrow> real) \<Rightarrow> real list \<Rightarrow> u16 \<Rightarrow> byte \<Rightarrow> bool \<Rightarrow> (fault + real list) option" where
  "applyMovingAverage rnd dat dataLen window temp_ok =
     (if unat window < 2 then Some (Inr dat)
      else if \<not> temp_ok then Some (Inr dat)
      else
        let half = uint window div 2 in
        case run_all (map (average_at rnd dat dataLen half) [0 ..< unat dataLen]) of
          None \<Rightarrow> None
        | Some (Inl e) \<Rightarrow> Some (Inl e)
        | Some (Inr temp) \<Rightarrow> Some (Inr (temp @ drop (unat dataLen) dat)))"

text \<open>
  The mean of a list as the smoother computes it: the entries are added from left to
  right, every sum rounded, and the total is divided by the number of entries.
\<close>

definition float_sum :: "(real \<Rightarrow> real) \<Rightarrow> real list \<Rightarrow> real" where
  "float_sum rnd xs = foldl (\<lambda>s x. rnd (s + x)) 0 xs"

definition float_mean :: "(real \<Rightarrow> real) \<Rightarrow> real list \<Rightarrow> real" where
  "float_mean rnd xs = rnd (float_sum rnd xs / real (length xs))"

section \<open>Verified properties\<close>

subsection \<open>setPixel\<close>

lemma newBitmapCanvas_ok:
  "(\<And>blk. mem = Some blk \<Longrightarrow> length blk = unat (w div 8) * unat h) \<Longrightarrow>
   canvas_ok (newBitmapCanvas w h mem)"
  by (cases mem) (simp_all add: newBitmapCanvas_def canvas_ok_def)

lemma stamp_mask_bit:
  assumes "k < 8"
  shows "bit (drop_bit k (0x80 :: byte)) n \<longleftrightarrow> n = 7 - k"
proof -
  from assms have "k \<in> {0, 1, 2, 3, 4, 5, 6, 7}" by auto
  then have "drop_bit k (0x80 :: byte) = push_bit (7 - k) 1"
    by (auto simp: drop_bit_eq_div push_bit_eq_mult)
  moreover have "bit (push_bit (7 - k) (1 :: byte)) n \<longleftrightarrow> n = 7 - k"
    using assms by (auto simp: bit_simps)
  ultimately show ?thesis by simp
qed

lemma sint_nonneg_uint: "0 \<le> sint (x :: 'a::len word) \<Longrightarrow> sint x = uint x"
proof -
  assume a: "0 \<le> sint x"
  have "sint x < 2 ^ (LENGTH('a) - 1)" by (rule sint_lt)
  also have "\<dots> \<le> (2::int) ^ LENGTH('a)" by (rule power_increasing) auto
  finally have "take_bit LENGTH('a) (sint x) = sint x"
    using a by (simp add: take_bit_int_eq_self)
  then show ?thesis by (simp add: uint_sint)
qed

lemma and7: "uint ((x :: s16) AND 7) = uint x mod 8"
proof -
  have "x AND 7 = x AND mask 3" by (simp add: mask_eq_exp_minus_1)
  also have "\<dots> = word_of_int (uint x mod 2 ^ 3)" by (rule and_mask_mod_2p)
  finally have "uint (x AND 7) = uint (word_of_int (uint x mod 8) :: s16)" by simp
  also have "\<dots> = uint x mod 8"
    by (simp add: uint_word_of_int take_bit_int_eq_self)
  finally show ?thesis .
qed

lemma bitPosition_eq:
  assumes "0 \<le> sint (x :: s16)"
  shows "unat (ucast (x AND 7) :: byte) = nat (sint x mod 8)"
proof -
  have "uint (ucast (x AND 7) :: byte) = take_bit 8 (uint (x AND 7))"
    by (simp add: unsigned_ucast_eq)
  also have "\<dots> = uint x mod 8"
    unfolding and7 by (rule take_bit_int_eq_self) (auto intro: pos_mod_bound[THEN less_trans])
  finally have "uint (ucast (x AND 7) :: byte) = sint x mod 8"
    using assms by (simp add: sint_nonneg_uint)
  then have "int (unat (ucast (x AND 7) :: byte)) = sint x mod 8"
    by simp
  then show ?thesis by linarith
qed

lemma byteIndex_in_block:
  assumes ok: "canvas_ok c" and buf: "data c = Some buf"
    and w8: "8 dvd unat (width c)"
    and x: "0 \<le> sint x" "sint x < uint (width c)"
    and y: "0 \<le> sint y" "sint y < uint (height c)"
  shows "nat (sint x div 8 + sint y * uint (bytesPerLine c)) < length buf"
proof -
  define X where "X = nat (sint x)"
  define Y where "Y = nat (sint y)"
  define B where "B = unat (bytesPerLine c)"
  define H where "H = unat (height c)"
  have bpl: "B = unat (width c) div 8"
    using ok by (simp add: canvas_ok_def B_def unat_div)
  have len: "length buf = B * H"
    using ok buf by (simp add: canvas_ok_def B_def H_def)
  have "int X < int (unat (width c))"
    using x by (simp add: X_def)
  then have "X < unat (width c)" by linarith
  then have xb: "X div 8 < B"
    using w8 bpl by (auto simp: dvd_def)
  have "int Y < int H"
    using y by (simp add: Y_def H_def)
  then have yh: "Y < H" by linarith
  have sx: "sint x = int X" and sy: "sint y = int Y"
    using x(1) y(1) by (simp_all add: X_def Y_def)
  have ub: "uint (bytesPerLine c) = int B"
    by (simp add: B_def)
  have "sint x div 8 + sint y * uint (bytesPerLine c) = int (X div 8 + Y * B)"
    unfolding sx sy ub by (simp add: zdiv_int)
  then have idx: "nat (sint x div 8 + sint y * uint (bytesPerLine c)) = X div 8 + Y * B"
    by (simp only: nat_int)
  have "X div 8 + Y * B < B + Y * B" using xb by simp
  also have "\<dots> = (Suc Y) * B" by simp
  also have "\<dots> \<le> H * B" using yh by (intro mult_le_mono1) simp
  finally show ?thesis using idx len by (simp add: mult.commute)
qed

text \<open>
  Claim C6.  On a canvas as the constructor leaves it, with a width that is a multiple
  of 8: for a coordinate inside the canvas, \<open>setPixel\<close> returns normally and afterwards
  bit \<open>7 - (x mod 8)\<close> of byte \<open>x / 8 + y * (width / 8)\<close> is set; for a coordinate with
  \<open>x < 0\<close>, \<open>x \<ge> width\<close>, \<open>y < 0\<close> or \<open>y \<ge> height\<close>, \<open>setPixel\<close> returns normally and the
  canvas, with every byte of its buffer, is unchanged.
\<close>

theorem setPixel_sets_bit_or_ignores:
  assumes ok: "canvas_ok c" and w8: "8 dvd unat (width c)"
  shows "(0 \<le> sint x \<and> sint x < uint (width c) \<and> 0 \<le> sint y \<and> sint y < uint (height c) \<longrightarrow>
           (\<exists>c' buf'. setPixel c x y = Inr c' \<and> data c' = Some buf' \<and>
              nat (sint x div 8 + sint y * (uint (width c) div 8)) < length buf' \<and>
              bit (buf' ! nat (sint x div 8 + sint y * (uint (width c) div 8))) (7 - nat (sint x mod 8))))
       \<and> (sint x < 0 \<or> sint x \<ge> uint (width c) \<or> sint y < 0 \<or> sint y \<ge> uint (height c) \<longrightarrow>
           setPixel c x y = Inr c)"
proof (intro conjI impI)
  assume inb: "0 \<le> sint x \<and> sint x < uint (width c) \<and> 0 \<le> sint y \<and> sint y < uint (height c)"
  then have "width c \<noteq> 0" by auto
  then obtain buf where buf: "data c = Some buf"
    using ok by (cases "data c") (auto simp: canvas_ok_def)
  let ?i = "nat (sint x div 8 + sint y * uint (bytesPerLine c))"
  have bpl: "uint (bytesPerLine c) = uint (width c) div 8"
    using ok by (simp add: canvas_ok_def uint_div)
  have i: "?i < length buf"
    using byteIndex_in_block[OF ok buf w8] inb by blast
  have k: "unat (ucast (x AND 7) :: byte) = nat (sint x mod 8)"
    using inb by (simp add: bitPosition_eq)
  have k8: "nat (sint x mod 8) < 8"
    by (simp add: nat_less_iff)
  let ?buf' = "buf[?i := (buf ! ?i) OR drop_bit (nat (sint x mod 8)) 0x80]"
  have sp: "setPixel c x y = Inr (c\<lparr>data := Some ?buf'\<rparr>)"
    using inb buf i k by (simp add: setPixel_def Let_def)
  have "bit (?buf' ! ?i) (7 - nat (sint x mod 8))"
    using i k8 by (simp add: bit_or_iff stamp_mask_bit)
  then show "\<exists>c' buf'. setPixel c x y = Inr c' \<and> data c' = Some buf' \<and>
              nat (sint x div 8 + sint y * (uint (width c) div 8)) < length buf' \<and>
              bit (buf' ! nat (sint x div 8 + sint y * (uint (width c) div 8))) (7 - nat (sint x mod 8))"
    using sp i by (simp add: bpl)
next
  assume "sint x < 0 \<or> sint x \<ge> uint (width c) \<or> sint y < 0 \<or> sint y \<ge> uint (height c)"
  then show "setPixel c x y = Inr c"
    by (cases "data c") (auto simp: setPixel_def)
qed


text \<open>
  Claim C10.  For a coordinate inside the canvas, \<open>setPixel\<close> keeps \<open>width\<close>, \<open>height\<close>,
  \<open>bytesPerLine\<close> and the length of the buffer; every bit other than bit
  \<open>7 - (x mod 8)\<close> of byte \<open>x / 8 + y * bytesPerLine\<close> keeps its value, and every bit that
  was set stays set (no pixel is cleared).
\<close>

theorem setPixel_frame:
  assumes ok: "canvas_ok c" and w8: "8 dvd unat (width c)"
    and inb: "0 \<le> sint x" "sint x < uint (width c)" "0 \<le> sint y" "sint y < uint (height c)"
  shows "\<exists>c' buf buf'. setPixel c x y = Inr c' \<and>
           width c' = width c \<and> height c' = height c \<and> bytesPerLine c' = bytesPerLine c \<and>
           data c = Some buf \<and> data c' = Some buf' \<and> length buf' = length buf \<and>
           (\<forall>i n. i < length buf \<longrightarrow>
              (i, n) \<noteq> (nat (sint x div 8 + sint y * uint (bytesPerLine c)), 7 - nat (sint x mod 8)) \<longrightarrow>
              bit (buf' ! i) n = bit (buf ! i) n) \<and>
           (\<forall>i n. i < length buf \<longrightarrow> bit (buf ! i) n \<longrightarrow> bit (buf' ! i) n)"
proof -
  from inb have "width c \<noteq> 0" by auto
  then obtain buf where buf: "data c = Some buf"
    using ok by (cases "data c") (auto simp: canvas_ok_def)
  let ?i = "nat (sint x div 8 + sint y * uint (bytesPerLine c))"
  let ?k = "nat (sint x mod 8)"
  have i: "?i < length buf"
    using byteIndex_in_block[OF ok buf w8 inb] .
  have k: "unat (ucast (x AND 7) :: byte) = ?k"
    using inb by (simp add: bitPosition_eq)
  have k8: "?k < 8"
    by (simp add: nat_less_iff)
  let ?buf' = "buf[?i := (buf ! ?i) OR drop_bit ?k 0x80]"
  have sp: "setPixel c x y = Inr (c\<lparr>data := Some ?buf'\<rparr>)"
    using inb buf i k by (simp add: setPixel_def Let_def)
  have other: "bit (?buf' ! j) n = bit (buf ! j) n"
    if "j < length buf" "(j, n) \<noteq> (?i, 7 - ?k)" for j n
  proof (cases "j = ?i")
    case True
    with that have "n \<noteq> 7 - ?k" by simp
    then show ?thesis using True i k8 by (simp add: bit_or_iff stamp_mask_bit)
  next
    case False
    then show ?thesis by simp
  qed
  have keep: "bit (?buf' ! j) n" if "j < length buf" "bit (buf ! j) n" for j n
    using that i by (cases "j = ?i") (simp_all add: bit_or_iff)
  show ?thesis
    using sp buf other keep by (intro exI[of _ "c\<lparr>data := Some ?buf'\<rparr>"] exI[of _ buf] exI[of _ ?buf']) simp
qed

lemma demo_canvas_ok: "canvas_ok demo_canvas" "8 dvd unat (width demo_canvas)"
  by (simp_all add: demo_canvas_def newBitmapCanvas_def canvas_ok_def)

theorem setPixel_sets_bit_or_ignores_witness:
  "canvas_ok demo_canvas \<and> 8 dvd unat (width demo_canvas) \<and>
   (\<exists>c' buf'. setPixel demo_canvas 9 1 = Inr c' \<and> data c' = Some buf' \<and> bit (buf' ! 3) 6) \<and>
   setPixel demo_canvas 16 1 = Inr demo_canvas \<and>
   setPixel demo_canvas (- 1) 1 = Inr demo_canvas \<and>
   setPixel demo_canvas 9 2 = Inr demo_canvas \<and>
   setPixel demo_canvas 9 (- 1) = Inr demo_canvas"
proof -
  have w: "uint (width demo_canvas) = 16" "uint (height demo_canvas) = 2"
    by (simp_all add: demo_canvas_def newBitmapCanvas_def)
  have a: "\<exists>c' buf'. setPixel demo_canvas 9 1 = Inr c' \<and> data c' = Some buf' \<and> bit (buf' ! 3) 6"
    using setPixel_sets_bit_or_ignores[OF demo_canvas_ok, of 9 1] by (auto simp: w)
  have b: "setPixel demo_canvas 16 1 = Inr demo_canvas"
    using setPixel_sets_bit_or_ignores[OF demo_canvas_ok, of 16 1] by (simp add: w)
  have c: "setPixel demo_canvas (- 1) 1 = Inr demo_canvas"
    using setPixel_sets_bit_or_ignores[OF demo_canvas_ok, of "- 1" 1] by (simp add: w)
  have d: "setPixel demo_canvas 9 2 = Inr demo_canvas"
    using setPixel_sets_bit_or_ignores[OF demo_canvas_ok, of 9 2] by (simp add: w)
  have e: "setPixel demo_canvas 9 (- 1) = Inr demo_canvas"
    using setPixel_sets_bit_or_ignores[OF demo_canvas_ok, of 9 "- 1"] by (simp add: w)
  show ?thesis using demo_canvas_ok a b c d e by simp
qed

theorem setPixel_frame_witness:
  "canvas_ok demo_canvas \<and> 8 dvd unat (width demo_canvas) \<and>
   (\<exists>c' buf'. setPixel demo_canvas 9 1 = Inr c' \<and>
      width c' = 16 \<and> height c' = 2 \<and> bytesPerLine c' = 2 \<and>
      data c' = Some buf' \<and> length buf' = 4 \<and>
      \<not> bit (buf' ! 0) 6 \<and> \<not> bit (buf' ! 3) 5 \<and> \<not> bit (buf' ! 3) 7)"
proof -
  have w: "uint (width demo_canvas) = 16" "uint (height demo_canvas) = 2"
     "width demo_canvas = 16" "height demo_canvas = 2" "bytesPerLine demo_canvas = 2"
     "data demo_canvas = Some [0, 0, 0, 0]"
    by (simp_all add: demo_canvas_def newBitmapCanvas_def)
  have h: "0 \<le> sint (9::s16)" "sint (9::s16) < uint (width demo_canvas)"
    "0 \<le> sint (1::s16)" "sint (1::s16) < uint (height demo_canvas)"
    by (simp_all add: w)
  from setPixel_frame[OF demo_canvas_ok h]
  obtain c' buf buf' where *: "setPixel demo_canvas 9 1 = Inr c'"
    "width c' = width demo_canvas" "height c' = height demo_canvas"
    "bytesPerLine c' = bytesPerLine demo_canvas"
    "data demo_canvas = Some buf" "data c' = Some buf'" "length buf' = length buf"
    and fr: "\<forall>i n. i < length buf \<longrightarrow>
          (i, n) \<noteq> (nat (sint (9::s16) div 8 + sint (1::s16) * uint (bytesPerLine demo_canvas)), 7 - nat (sint (9::s16) mod 8)) \<longrightarrow>
          bit (buf' ! i) n = bit (buf ! i) n"
    by blast
  have buf: "buf = [0, 0, 0, 0]" using *(5) w by simp
  have "\<not> bit (buf' ! 0) 6" "\<not> bit (buf' ! 3) 5" "\<not> bit (buf' ! 3) 7"
    using fr[rule_format, of 0 6] fr[rule_format, of 3 5] fr[rule_format, of 3 7]
    by (simp_all add: buf w)
  then show ?thesis
    using demo_canvas_ok * w buf by auto
qed

subsection \<open>drawLine\<close>

lemma pixel_address_inj:
  assumes "X div 8 < B" "X' div 8 < (B::nat)"
    and "X div 8 + Y * B = X' div 8 + Y' * B" "X mod 8 = X' mod 8"
  shows "X = X' \<and> Y = Y'"
proof -
  have "(X div 8 + Y * B) div B = Y" "(X' div 8 + Y' * B) div B = Y'"
    using assms(1,2) by simp_all
  then have y: "Y = Y'" using assms(3) by simp
  then have "X div 8 = X' div 8" using assms(3) by simp
  then have "X = X'" using assms(4) by (metis div_mult_mod_eq)
  with y show ?thesis by simp
qed

lemma byteIndex_nat:
  assumes ok: "canvas_ok c" and w8: "8 dvd unat (width c)"
    and x: "0 \<le> sint x" "sint x < uint (width c)"
    and y: "0 \<le> sint y"
  shows "nat (sint x) div 8 < unat (bytesPerLine c)"
    and "nat (sint x div 8 + sint y * uint (bytesPerLine c))
          = nat (sint x) div 8 + nat (sint y) * unat (bytesPerLine c)"
proof -
  define X where "X = nat (sint x)"
  define Y where "Y = nat (sint y)"
  define B where "B = unat (bytesPerLine c)"
  have bpl: "B = unat (width c) div 8"
    using ok by (simp add: canvas_ok_def B_def unat_div)
  have "int X < int (unat (width c))"
    using x by (simp add: X_def)
  then have "X < unat (width c)" by linarith
  then show "nat (sint x) div 8 < unat (bytesPerLine c)"
    using w8 bpl unfolding X_def[symmetric] B_def[symmetric] by (auto simp: dvd_def)
  have sx: "sint x = int X" and sy: "sint y = int Y"
    using x(1) y(1) by (simp_all add: X_def Y_def)
  have ub: "uint (bytesPerLine c) = int B"
    by (simp add: B_def)
  have "sint x div 8 + sint y * uint (bytesPerLine c) = int (X div 8 + Y * B)"
    unfolding sx sy ub by (simp add: zdiv_int)
  then show "nat (sint x div 8 + sint y * uint (bytesPerLine c))
          = nat (sint x) div 8 + nat (sint y) * unat (bytesPerLine c)"
    unfolding X_def[symmetric] Y_def[symmetric] B_def[symmetric] by (simp only: nat_int)
qed

lemma setPixel_painted:
  assumes ok: "canvas_ok c" and w8: "8 dvd unat (width c)"
  shows "\<exists>c'. setPixel c x y = Inr c' \<and> painted c c' {(x, y)}"
proof (cases "in_canvas c x y")
  case False
  then have "setPixel c x y = Inr c"
    by (cases "data c") (auto simp: setPixel_def in_canvas_def)
  moreover have "painted c c {(x, y)}"
    using ok False by (auto simp: painted_def)
  ultimately show ?thesis by blast
next
  case True
  then have inb: "0 \<le> sint x" "sint x < uint (width c)" "0 \<le> sint y" "sint y < uint (height c)"
    by (simp_all add: in_canvas_def)
  from inb have "width c \<noteq> 0" by auto
  then obtain buf where buf: "data c = Some buf"
    using ok by (cases "data c") (auto simp: canvas_ok_def)
  let ?B = "uint (bytesPerLine c)"
  let ?i = "nat (sint x div 8 + sint y * ?B)"
  let ?k = "nat (sint x mod 8)"
  have i: "?i < length buf"
    using byteIndex_in_block[OF ok buf w8 inb] .
  have k: "unat (ucast (x AND 7) :: byte) = ?k"
    using inb by (simp add: bitPosition_eq)
  have k8: "?k < 8"
    by (simp add: nat_less_iff)
  let ?buf' = "buf[?i := (buf ! ?i) OR drop_bit ?k 0x80]"
  let ?c' = "c\<lparr>data := Some ?buf'\<rparr>"
  have sp: "setPixel c x y = Inr ?c'"
    using inb buf i k by (simp add: setPixel_def Let_def)
  have ok': "canvas_ok ?c'"
    using ok buf by (simp add: canvas_ok_def)
  have px: "pixelBlack ?c' px py = (pixelBlack c px py \<or> (px, py) \<in> {(x, y)})"
    if pin: "in_canvas c px py" for px py
  proof -
    from pin have pinb: "0 \<le> sint px" "sint px < uint (width c)" "0 \<le> sint py" "sint py < uint (height c)"
      by (simp_all add: in_canvas_def)
    let ?j = "nat (sint px div 8 + sint py * ?B)"
    let ?m = "nat (sint px mod 8)"
    have j: "?j < length buf"
      using byteIndex_in_block[OF ok buf w8 pinb] .
    have m8: "?m < 8" by (simp add: nat_less_iff)
    have rd: "pixelBlack ?c' px py = bit (?buf' ! ?j) (7 - ?m)"
             "pixelBlack c px py = bit (buf ! ?j) (7 - ?m)"
      using buf by (simp_all add: pixelBlack_def)
    show ?thesis
    proof (cases "(px, py) = (x, y)")
      case True
      then show ?thesis using rd i k8 by (simp add: bit_or_iff stamp_mask_bit)
    next
      case False
      have ne: "\<not> (?j = ?i \<and> ?m = ?k)"
      proof
        assume eq: "?j = ?i \<and> ?m = ?k"
        define B where "B = unat (bytesPerLine c)"
        have X: "nat (sint x) div 8 < B" "nat (sint px) div 8 < B"
          using byteIndex_nat(1)[OF ok w8 inb(1,2,3)] byteIndex_nat(1)[OF ok w8 pinb(1,2,3)]
          by (simp_all add: B_def)
        have ii: "?i = nat (sint x) div 8 + nat (sint y) * B"
          using byteIndex_nat(2)[OF ok w8 inb(1,2,3)] by (simp add: B_def)
        have jj: "?j = nat (sint px) div 8 + nat (sint py) * B"
          using byteIndex_nat(2)[OF ok w8 pinb(1,2,3)] by (simp add: B_def)
        from eq have "?m = ?k" by (rule conjunct2)
        then have mm: "nat (sint px) mod 8 = nat (sint x) mod 8"
          using inb(1) pinb(1) by (simp add: nat_mod_distrib)
        from eq have "?j = ?i" by (rule conjunct1)
        then have e3: "nat (sint px) div 8 + nat (sint py) * B = nat (sint x) div 8 + nat (sint y) * B"
          by (simp only: ii jj)
        have "nat (sint px) = nat (sint x) \<and> nat (sint py) = nat (sint y)"
          by (rule pixel_address_inj[OF X(2) X(1) e3 mm])
        then have "sint px = sint x" "sint py = sint y"
          using inb(1,3) pinb(1,3) by linarith+
        then have "px = x" "py = y" by (auto intro: signed_word_eqI)
        with False show False by simp
      qed
      have "bit (?buf' ! ?j) (7 - ?m) = bit (buf ! ?j) (7 - ?m)"
      proof (cases "?j = ?i")
        case True
        with ne have "?m \<noteq> ?k" by simp
        then have "7 - ?m \<noteq> 7 - ?k" using m8 k8 by linarith
        then show ?thesis using True i k8 by (simp add: bit_or_iff stamp_mask_bit)
      next
        case False
        then show ?thesis by simp
      qed
      then show ?thesis using rd False by auto
    qed
  qed
  have "painted c ?c' {(x, y)}"
    unfolding painted_def using ok' px by simp
  with sp show ?thesis by blast
qed

lemma painted_refl: "canvas_ok c \<Longrightarrow> painted c c {}"
  by (simp add: painted_def)

lemma painted_trans:
  assumes "painted c c1 S" "painted c1 c2 T"
  shows "painted c c2 (S \<union> T)"
  using assms by (auto simp: painted_def in_canvas_def)

lemma paint_painted:
  assumes w8: "8 dvd unat (width c)" and p: "painted c c1 S"
  shows "\<exists>c2. paint (Inr c1) x y = Inr c2 \<and> painted c c2 (insert (x, y) S)"
proof -
  from p have ok1: "canvas_ok c1" and w1: "8 dvd unat (width c1)"
    using w8 by (simp_all add: painted_def)
  from setPixel_painted[OF ok1 w1, of x y]
  obtain c2 where c2: "setPixel c1 x y = Inr c2" "painted c1 c2 {(x, y)}" by blast
  from painted_trans[OF p c2(2)] have "painted c c2 (insert (x, y) S)" by simp
  with c2(1) show ?thesis by (simp add: paint_def)
qed

lemma row_painted:
  assumes w8: "8 dvd unat (width c)" and p: "painted c c1 S"
  shows "\<exists>c2. foldl (\<lambda>r tx. paint r (x0 + word_of_int tx) y) (Inr c1) txs = Inr c2 \<and>
              painted c c2 (S \<union> (\<lambda>tx. (x0 + word_of_int tx, y)) ` set txs)"
  using p
proof (induction txs arbitrary: c1 S)
  case Nil
  then show ?case by simp
next
  case (Cons tx txs)
  from paint_painted[OF w8 Cons.prems, of "x0 + word_of_int tx" y]
  obtain c2 where c2: "paint (Inr c1) (x0 + word_of_int tx) y = Inr c2"
    "painted c c2 (insert (x0 + word_of_int tx, y) S)" by blast
  from Cons.IH[OF c2(2)] c2(1) show ?case by simp
qed

lemma rows_painted:
  assumes w8: "8 dvd unat (width c)" and p: "painted c c1 S"
  shows "\<exists>c2. foldl (\<lambda>r ty. foldl (\<lambda>r tx. paint r (x0 + word_of_int tx) (y0 + word_of_int ty)) r txs)
                 (Inr c1) tys = Inr c2 \<and>
              painted c c2 (S \<union> (\<lambda>(tx, ty). (x0 + word_of_int tx, y0 + word_of_int ty)) ` (set txs \<times> set tys))"
  using p
proof (induction tys arbitrary: c1 S)
  case Nil
  then show ?case by simp
next
  case (Cons ty tys)
  from row_painted[OF w8 Cons.prems, of x0 "y0 + word_of_int ty" txs]
  obtain c2 where c2:
    "foldl (\<lambda>r tx. paint r (x0 + word_of_int tx) (y0 + word_of_int ty)) (Inr c1) txs = Inr c2"
    "painted c c2 (S \<union> (\<lambda>tx. (x0 + word_of_int tx, y0 + word_of_int ty)) ` set txs)" by blast
  from Cons.IH[OF c2(2)]
  obtain c3 where c3:
    "foldl (\<lambda>r ty. foldl (\<lambda>r tx. paint r (x0 + word_of_int tx) (y0 + word_of_int ty)) r txs)
                 (Inr c2) tys = Inr c3"
    "painted c c3 ((S \<union> (\<lambda>tx. (x0 + word_of_int tx, y0 + word_of_int ty)) ` set txs)
        \<union> (\<lambda>(tx, ty). (x0 + word_of_int tx, y0 + word_of_int ty)) ` (set txs \<times> set tys))" by blast
  have eq: "(S \<union> (\<lambda>tx. (x0 + word_of_int tx, y0 + word_of_int ty)) ` set txs)
        \<union> (\<lambda>(tx, ty). (x0 + word_of_int tx, y0 + word_of_int ty)) ` (set txs \<times> set tys)
      = S \<union> (\<lambda>(tx, ty). (x0 + word_of_int tx, y0 + word_of_int ty)) ` (set txs \<times> set (ty # tys))"
    by auto
  show ?case using c2(1) c3 unfolding eq by simp
qed

lemma drawThickPoint_painted:
  assumes ok: "canvas_ok c" and w8: "8 dvd unat (width c)"
  shows "\<exists>c'. drawThickPoint c x0 y0 thickness = Inr c' \<and>
              painted c c' (stamp_square x0 y0 (uint thickness div 2))"
  using rows_painted[OF w8 painted_refl[OF ok], of x0 y0
      "[- (uint thickness div 2) .. uint thickness div 2]"
      "[- (uint thickness div 2) .. uint thickness div 2]"]
  by (simp add: drawThickPoint_def stamp_square_def Let_def)

lemma line_point_Suc: "line_point dx dy sx sy st (Suc k) = line_point dx dy sx sy (bresenham_next dx dy sx sy st) k"
  by (simp add: line_point_def funpow_swap1)

lemma line_point_0: "line_point dx dy sx sy st 0 = st"
  by (simp add: line_point_def)

lemma UN_atMost_Suc_shift: "(\<Union>k\<le>Suc n. F k) = F 0 \<union> (\<Union>k\<le>n. F (Suc k))"
  by (simp add: atMost_Suc_eq_insert_0)

lemma drawLine_loop_returns:
  assumes w8: "8 dvd unat (width c0)"
  shows "drawLine_loop x1 y1 dx dy sx sy thickness c st = Some r \<Longrightarrow>
         painted c0 c S \<Longrightarrow>
         \<exists>n c'. r = Inr c' \<and> at_end x1 y1 (line_point dx dy sx sy st n) \<and>
            (\<forall>k<n. \<not> at_end x1 y1 (line_point dx dy sx sy st k)) \<and>
            painted c0 c' (S \<union> (\<Union>k\<le>n. stamp_at (uint thickness div 2) (line_point dx dy sx sy st k)))"
proof (induction arbitrary: S rule: drawLine_loop.raw_induct[rotated 1, consumes 1, case_names step])
  case (step loop x1 y1 dx dy sx sy thickness c st r)
  note IH = step(1) and body = step(2) and prem = step(3)
  obtain x0 y0 err where st: "st = (x0, y0, err)" by (cases st) auto
  from prem have ok: "canvas_ok c" and w: "8 dvd unat (width c)"
    using w8 by (simp_all add: painted_def)
  from drawThickPoint_painted[OF ok w, of x0 y0 thickness]
  obtain c1 where c1: "drawThickPoint c x0 y0 thickness = Inr c1"
    "painted c c1 (stamp_square x0 y0 (uint thickness div 2))" by blast
  have p1: "painted c0 c1 (S \<union> stamp_at (uint thickness div 2) st)"
    using painted_trans[OF prem c1(2)] by (simp add: stamp_at_def st)
  show ?case
  proof (cases "x0 = x1 \<and> y0 = y1")
    case True
    then have "r = Inr c1" using body c1(1) st by simp
    moreover have "at_end x1 y1 (line_point dx dy sx sy st 0)"
      using True by (simp add: at_end_def line_point_def st)
    ultimately show ?thesis
      using p1 by (intro exI[of _ 0] exI[of _ c1]) (simp add: line_point_def)
  next
    case False
    let ?st' = "bresenham_next dx dy sx sy st"
    from False have rec: "loop x1 y1 dx dy sx sy thickness c1 ?st' = Some r"
      using body c1(1) st by auto
    from IH[OF rec p1]
    obtain n c' where n: "r = Inr c'" "at_end x1 y1 (line_point dx dy sx sy ?st' n)"
      "\<forall>k<n. \<not> at_end x1 y1 (line_point dx dy sx sy ?st' k)"
      "painted c0 c' ((S \<union> stamp_at (uint thickness div 2) st) \<union>
          (\<Union>k\<le>n. stamp_at (uint thickness div 2) (line_point dx dy sx sy ?st' k)))"
      by blast
    have ne0: "\<not> at_end x1 y1 (line_point dx dy sx sy st 0)"
      using False by (simp add: at_end_def line_point_def st)
    have a: "at_end x1 y1 (line_point dx dy sx sy st (Suc n))"
      using n(2) by (simp add: line_point_Suc)
    have b: "\<forall>k<Suc n. \<not> at_end x1 y1 (line_point dx dy sx sy st k)"
    proof (intro allI impI)
      fix k assume "k < Suc n"
      then show "\<not> at_end x1 y1 (line_point dx dy sx sy st k)"
        using ne0 n(3) by (cases k) (simp_all add: line_point_Suc)
    qed
    have "(\<Union>k\<le>Suc n. stamp_at (uint thickness div 2) (line_point dx dy sx sy st k))
        = stamp_at (uint thickness div 2) st \<union>
          (\<Union>k\<le>n. stamp_at (uint thickness div 2) (line_point dx dy sx sy ?st' k))"
      by (simp add: UN_atMost_Suc_shift line_point_Suc line_point_0)
    then have c: "painted c0 c' (S \<union> (\<Union>k\<le>Suc n. stamp_at (uint thickness div 2) (line_point dx dy sx sy st k)))"
      using n(4) by (simp add: Un_assoc)
    show ?thesis using n(1) a b c by blast
  qed
qed

lemma drawLine_loop_terminates:
  assumes w8: "8 dvd unat (width c0)"
  shows "at_end x1 y1 (line_point dx dy sx sy st n) \<Longrightarrow> painted c0 c S \<Longrightarrow>
         \<exists>r. drawLine_loop x1 y1 dx dy sx sy thickness c st = Some r"
proof (induction n arbitrary: c st S)
  case 0
  obtain x0 y0 err where st: "st = (x0, y0, err)" by (cases st) auto
  from "0.prems" have ok: "canvas_ok c" and w: "8 dvd unat (width c)"
    using w8 by (simp_all add: painted_def)
  from drawThickPoint_painted[OF ok w, of x0 y0 thickness]
  obtain c1 where c1: "drawThickPoint c x0 y0 thickness = Inr c1" by blast
  from "0.prems"(1) have "x0 = x1 \<and> y0 = y1"
    by (simp add: at_end_def line_point_def st)
  then show ?case
    using c1 by (subst drawLine_loop.simps) (simp add: st)
next
  case (Suc n)
  obtain x0 y0 err where st: "st = (x0, y0, err)" by (cases st) auto
  from Suc.prems have ok: "canvas_ok c" and w: "8 dvd unat (width c)"
    using w8 by (simp_all add: painted_def)
  from drawThickPoint_painted[OF ok w, of x0 y0 thickness]
  obtain c1 where c1: "drawThickPoint c x0 y0 thickness = Inr c1"
    "painted c c1 (stamp_square x0 y0 (uint thickness div 2))" by blast
  have p1: "painted c0 c1 (S \<union> stamp_square x0 y0 (uint thickness div 2))"
    by (rule painted_trans[OF Suc.prems(2) c1(2)])
  show ?case
  proof (cases "x0 = x1 \<and> y0 = y1")
    case True
    then show ?thesis
      using c1 by (subst drawLine_loop.simps) (simp add: st)
  next
    case False
    from Suc.prems(1) have "at_end x1 y1 (line_point dx dy sx sy (bresenham_next dx dy sx sy st) n)"
      by (simp add: line_point_Suc)
    from Suc.IH[OF this p1]
    obtain r where "drawLine_loop x1 y1 dx dy sx sy thickness c1 (bresenham_next dx dy sx sy st) = Some r"
      by blast
    then show ?thesis
      using c1 False by (subst drawLine_loop.simps) (auto simp: st)
  qed
qed

lemma stamp_square_single: "stamp_square x y 0 = {(x, y)}"
  by (simp add: stamp_square_def)

text \<open>
  Claim C9, as amended.  On a canvas as the constructor leaves it, with a width that is a
  multiple of 8: the thick point at \<open>(x, y)\<close> returns normally and paints, inside the canvas,
  exactly the pixels \<open>(x + tx, y + ty)\<close> with \<open>tx\<close> and \<open>ty\<close> in \<open>[-thickness/2, thickness/2]\<close>, a
  square of side \<open>2 * (thickness / 2) + 1\<close>; with thickness 1 that is the pixel \<open>(x, y)\<close>
  alone.  A call of \<open>drawLine\<close> that returns has stamped this square at every loop state
  up to the first one at \<open>(x1, y1)\<close> and painted nothing else, and the call returns
  whenever the walk reaches \<open>(x1, y1)\<close>.
\<close>

theorem drawLine_stamps_squares:
  assumes ok: "canvas_ok c" and w8: "8 dvd unat (width c)"
  shows "(\<exists>c'. drawThickPoint c x y thickness = Inr c' \<and>
            painted c c' (stamp_square x y (uint thickness div 2))) \<and>
         stamp_square x y (uint (1 :: byte) div 2) = {(x, y)} \<and>
         (\<forall>r. drawLine c x0 y0 x1 y1 thickness = Some r \<longrightarrow>
            (\<exists>n c'. r = Inr c' \<and>
               at_end x1 y1 (drawLine_point x0 y0 x1 y1 n) \<and>
               (\<forall>k<n. \<not> at_end x1 y1 (drawLine_point x0 y0 x1 y1 k)) \<and>
               painted c c' (\<Union>k\<le>n. stamp_at (uint thickness div 2) (drawLine_point x0 y0 x1 y1 k)))) \<and>
         ((\<exists>n. at_end x1 y1 (drawLine_point x0 y0 x1 y1 n)) \<longrightarrow>
            (\<exists>r. drawLine c x0 y0 x1 y1 thickness = Some r))"
proof (intro conjI allI impI)
  show "\<exists>c'. drawThickPoint c x y thickness = Inr c' \<and>
            painted c c' (stamp_square x y (uint thickness div 2))"
    by (rule drawThickPoint_painted[OF ok w8])
  show "stamp_square x y (uint (1 :: byte) div 2) = {(x, y)}"
    by (simp add: stamp_square_single)
next
  fix r assume "drawLine c x0 y0 x1 y1 thickness = Some r"
  then show "\<exists>n c'. r = Inr c' \<and>
               at_end x1 y1 (drawLine_point x0 y0 x1 y1 n) \<and>
               (\<forall>k<n. \<not> at_end x1 y1 (drawLine_point x0 y0 x1 y1 k)) \<and>
               painted c c' (\<Union>k\<le>n. stamp_at (uint thickness div 2) (drawLine_point x0 y0 x1 y1 k))"
    using drawLine_loop_returns[OF w8 _ painted_refl[OF ok]]
    by (simp add: drawLine_def drawLine_point_def Let_def)
next
  assume "\<exists>n. at_end x1 y1 (drawLine_point x0 y0 x1 y1 n)"
  then show "\<exists>r. drawLine c x0 y0 x1 y1 thickness = Some r"
    using drawLine_loop_terminates[OF w8 _ painted_refl[OF ok]]
    by (auto simp: drawLine_def drawLine_point_def Let_def)
qed

lemma white_8x3_ok: "canvas_ok white_8x3" "8 dvd unat (width white_8x3)"
  by (simp_all add: white_8x3_def newBitmapCanvas_def canvas_ok_def)

theorem drawLine_stamps_squares_witness:
  "canvas_ok white_8x3 \<and> 8 dvd unat (width white_8x3) \<and>
   (\<exists>c'. drawThickPoint white_8x3 1 1 3 = Inr c' \<and> pixelBlack c' 2 2 \<and> pixelBlack c' 0 0 \<and>
      \<not> pixelBlack c' 3 1) \<and>
   (\<exists>c'. drawLine white_8x3 0 0 2 2 1 = Some (Inr c') \<and> pixelBlack c' 1 1 \<and> \<not> pixelBlack c' 1 0)"
proof -
  note T1 = drawLine_stamps_squares[OF white_8x3_ok, where x = 1 and y = 1 and thickness = 3]
  note T = drawLine_stamps_squares[OF white_8x3_ok, where thickness = 1 and ?x0.0 = 0 and ?y0.0 = 0
      and ?x1.0 = 2 and ?y1.0 = 2]
  have inc: "in_canvas white_8x3 2 2" "in_canvas white_8x3 0 0" "in_canvas white_8x3 3 1"
    "in_canvas white_8x3 1 1" "in_canvas white_8x3 1 0"
    by (simp_all add: in_canvas_def white_8x3_def newBitmapCanvas_def)
  have wh: "\<not> pixelBlack white_8x3 2 2" "\<not> pixelBlack white_8x3 0 0" "\<not> pixelBlack white_8x3 3 1"
    "\<not> pixelBlack white_8x3 1 1" "\<not> pixelBlack white_8x3 1 0"
    by code_simp+
  have sq: "stamp_square 1 1 (uint (3 :: byte) div 2) = {0, 1, 2} \<times> {0, 1, 2}"
    by code_simp
  from T1 obtain c1 where c1: "drawThickPoint white_8x3 1 1 3 = Inr c1"
    "painted white_8x3 c1 (stamp_square 1 1 (uint (3 :: byte) div 2))" by blast
  have A: "pixelBlack c1 2 2 \<and> pixelBlack c1 0 0 \<and> \<not> pixelBlack c1 3 1"
    using c1(2) inc wh unfolding painted_def sq by simp
  have pts: "drawLine_point 0 0 2 2 0 = (0, 0, 0)" "drawLine_point 0 0 2 2 1 = (1, 1, 0)"
    "drawLine_point 0 0 2 2 2 = (2, 2, 0)"
    by code_simp+
  have pts1: "drawLine_point 0 0 2 2 (Suc 0) = (1, 1, 0)"
    using pts(2) by simp
  have "at_end 2 2 (drawLine_point 0 0 2 2 2)"
    by (simp add: pts at_end_def)
  with T obtain r where r: "drawLine white_8x3 0 0 2 2 1 = Some r" by blast
  with T obtain n c2 where n: "r = Inr c2" "at_end 2 2 (drawLine_point 0 0 2 2 n)"
    "\<forall>k<n. \<not> at_end 2 2 (drawLine_point 0 0 2 2 k)"
    "painted white_8x3 c2 (\<Union>k\<le>n. stamp_at (uint (1 :: byte) div 2) (drawLine_point 0 0 2 2 k))"
    by blast
  have "\<not> n < 2"
  proof
    assume "n < 2"
    then have "n = 0 \<or> n = 1" by auto
    then show False using n(2) by (auto simp: pts pts1 at_end_def)
  qed
  moreover have "\<not> 2 < n"
    using n(3) by (auto simp: pts at_end_def)
  ultimately have n2: "n = 2" by simp
  have "{..(2::nat)} = {0, 1, 2}" by auto
  then have un: "(\<Union>k\<le>2. stamp_at (uint (1 :: byte) div 2) (drawLine_point 0 0 2 2 k))
      = {(0, 0), (1, 1), (2, 2)}"
    by (auto simp: pts pts1 stamp_at_def stamp_square_def)
  have B: "pixelBlack c2 1 1 \<and> \<not> pixelBlack c2 1 0"
    using n(4) inc wh unfolding painted_def n2 un by simp
  show ?thesis
    using white_8x3_ok c1(1) A r n(1) B by auto
qed

text \<open>
  Claim C9 as stated fails for an even thickness: with thickness 2 the thick point at
  \<open>(1, 1)\<close> of a white canvas paints the nine pixels of a square of side 3, not the four of
  a square of side 2.
\<close>

theorem drawLine_even_thickness_counterexample:
  "\<exists>c'. drawThickPoint white_8x3 1 1 2 = Inr c' \<and>
     blackPixels white_8x3 = [] \<and>
     blackPixels c' = [(0, 0), (1, 0), (2, 0), (0, 1), (1, 1), (2, 1), (0, 2), (1, 2), (2, 2)] \<and>
     length (blackPixels c') \<noteq> 2 * 2"
proof -
  have a: "drawThickPoint white_8x3 1 1 2 = Inr \<lparr>width = 8, height = 3, bytesPerLine = 1, data = Some [224, 224, 224]\<rparr>"
    by code_simp
  have b: "blackPixels white_8x3 = []"
    by code_simp
  have c: "blackPixels \<lparr>width = 8, height = 3, bytesPerLine = 1, data = Some [224, 224, 224]\<rparr>
      = [(0, 0), (1, 0), (2, 0), (0, 1), (1, 1), (2, 1), (0, 2), (1, 2), (2, 2)]"
    by code_simp
  show ?thesis using a b c by simp
qed

subsection \<open>printBitmap\<close>

lemma serial_write_full:
  "length bytes \<le> room (length (tx s)) \<Longrightarrow>
   serial_write room s bytes = (length bytes, s\<lparr>tx := tx s @ [(bytes, length bytes)]\<rparr>)"
  by (simp add: serial_write_def Let_def min_def)

lemma printBitmap_loop_full:
  assumes full: "\<forall>k. 512 \<le> room k" and len: "totalBytes \<le> length bitmapData"
  shows "j \<le> (totalBytes + 511) div 512 \<Longrightarrow>
         printBitmap_loop room bitmapData totalBytes (min totalBytes (512 * j)) s
           = Some (Inr (s\<lparr>tx := tx s @ map (chunk_call bitmapData totalBytes) [j ..< (totalBytes + 511) div 512]\<rparr>))"
proof (induction "(totalBytes + 511) div 512 - j" arbitrary: j s)
  case 0
  then have j: "j = (totalBytes + 511) div 512" by simp
  then have "totalBytes \<le> 512 * j" by linarith
  then have "min totalBytes (512 * j) = totalBytes" by simp
  then show ?case
    by (subst printBitmap_loop.simps) (simp add: j)
next
  case (Suc d)
  let ?N = "(totalBytes + 511) div 512"
  from Suc.hyps(2) have jN: "j < ?N" by linarith
  then have lt: "512 * j < totalBytes" by linarith
  then have sent: "min totalBytes (512 * j) = 512 * j" by simp
  let ?cs = "min 512 (totalBytes - 512 * j)"
  let ?chunk = "take ?cs (drop (512 * j) bitmapData)"
  have inb: "512 * j + ?cs \<le> length bitmapData" using len lt by simp
  have lc: "length ?chunk = ?cs" using inb by simp
  have "?cs \<le> room (length (tx s))" using full by (meson min.coboundedI1 order_trans)
  then have w: "serial_write room s ?chunk = (?cs, s\<lparr>tx := tx s @ [(?chunk, ?cs)]\<rparr>)"
    using serial_write_full[of ?chunk room s] lc by simp
  have nxt: "512 * j + ?cs = min totalBytes (512 * Suc j)" using lt by (auto simp: min_def)
  have d: "d = ?N - Suc j" using Suc.hyps(2) by simp
  have sj: "Suc j \<le> ?N" using jN by simp
  have up: "[j ..< ?N] = j # [Suc j ..< ?N]" using jN by (simp add: upt_conv_Cons)
  have nf: "\<not> length bitmapData < 512 * j + ?cs" using inb by simp
  have "printBitmap_loop room bitmapData totalBytes (512 * j) s
      = printBitmap_loop room bitmapData totalBytes (512 * j + ?cs)
          (s\<lparr>tx := tx s @ [(?chunk, ?cs)]\<rparr>)"
    by (subst printBitmap_loop.simps)
       (simp only: lt nf w if_True if_False Let_def prod.case)
  also have "\<dots> = printBitmap_loop room bitmapData totalBytes (min totalBytes (512 * Suc j))
          (s\<lparr>tx := tx s @ [(?chunk, ?cs)]\<rparr>)"
    by (simp only: nxt)
  also have "\<dots> = Some (Inr (s\<lparr>tx := tx s @ [(?chunk, ?cs)]\<rparr>
        \<lparr>tx := tx (s\<lparr>tx := tx s @ [(?chunk, ?cs)]\<rparr>) @ map (chunk_call bitmapData totalBytes) [Suc j ..< ?N]\<rparr>))"
    by (rule Suc.hyps(1)[OF d sj])
  finally show ?case
    unfolding sent up by (simp add: chunk_call_def)
qed

lemma le16: "unat (ucast ((v::u16) AND 0xFF) :: byte) + 256 * unat (ucast (drop_bit 8 v AND 0xFF) :: byte) = unat v"
proof -
  have m: "(0xFF :: u16) = mask 8" by (simp add: mask_eq_exp_minus_1)
  have a: "unat (ucast (v AND 0xFF) :: byte) = unat v mod 256"
    unfolding m take_bit_eq_mask[symmetric]
    by (simp add: unsigned_ucast_eq unsigned_take_bit_eq take_bit_eq_mod unat_mod)
  have b: "unat (ucast (drop_bit 8 v AND 0xFF) :: byte) = unat v div 256 mod 256"
    unfolding m take_bit_eq_mask[symmetric]
    by (simp add: unsigned_ucast_eq unsigned_take_bit_eq unat_drop_bit_eq take_bit_eq_mod drop_bit_eq_div unat_mod unat_div)
  have "unat v < 65536" using unsigned_less[of v, where 'a=nat] by simp
  then have "unat v div 256 mod 256 = unat v div 256" by simp
  then show ?thesis using a b by simp
qed

lemma raster_header_length: "length (raster_header wb ht) = 8"
  by (simp add: raster_header_def)

lemma sendCommand_header:
  "sendCommand room s (raster_header wb ht)
     = (8 \<le> room (length (tx s)),
        s\<lparr>tx := tx s @ [(raster_header wb ht, min 8 (room (length (tx s))))]\<rparr>)"
  by (auto simp: sendCommand_def serial_write_def raster_header_length Let_def min_def)

text \<open>
  Claim C3.  When the port accepts every write whole and the buffer holds the payload,
  \<open>printBitmap\<close> returns true; its first write is the 8 bytes \<open>GS 'v' '0' 0x00\<close>, then
  \<open>width / 8\<close> and the height as 16-bit little-endian values; the writes after it are the
  payload in chunks of 512 bytes, \<open>ceil((width / 8) * height / 512)\<close> of them.  For a
  512 by 100 bitmap that is one header write and 13 chunk writes.
\<close>

theorem printBitmap_header_and_chunks:
  assumes full: "\<forall>k. 512 \<le> room k"
    and len: "unat (wd div 8) * unat ht \<le> length bitmapData"
  shows "\<exists>s' wlo whi hlo hhi.
           printBitmap room s wd ht bitmapData = Some (Inr (True, s')) \<and>
           tx s' = tx s @ ([0x1D, 0x76, 0x30, 0x00, wlo, whi, hlo, hhi], 8)
                     # map (chunk_call bitmapData (unat (wd div 8) * unat ht))
                         [0 ..< (unat (wd div 8) * unat ht + 511) div 512] \<and>
           unat wlo + 256 * unat whi = unat wd div 8 \<and>
           unat hlo + 256 * unat hhi = unat ht \<and>
           length (tx s') = length (tx s) + 1 + (unat (wd div 8) * unat ht + 511) div 512"
proof -
  let ?wb = "wd div 8"
  let ?T = "unat ?wb * unat ht"
  let ?N = "(?T + 511) div 512"
  let ?s1 = "s\<lparr>tx := tx s @ [(raster_header ?wb ht, 8)]\<rparr>"
  have "512 \<le> room (length (tx s))" using full by blast
  then have r8: "8 \<le> room (length (tx s))" by linarith
  have hdr: "sendCommand room s (raster_header ?wb ht) = (True, ?s1)"
    using r8 by (simp add: sendCommand_header min_def)
  have loop: "printBitmap_loop room bitmapData ?T 0 ?s1
      = Some (Inr (?s1\<lparr>tx := tx ?s1 @ map (chunk_call bitmapData ?T) [0 ..< ?N]\<rparr>))"
    using printBitmap_loop_full[OF full len, of 0 ?s1] by simp
  let ?s2 = "?s1\<lparr>tx := tx ?s1 @ map (chunk_call bitmapData ?T) [0 ..< ?N]\<rparr>"
  have res: "printBitmap room s wd ht bitmapData = Some (Inr (True, ?s2))"
    by (simp add: printBitmap_def Let_def hdr loop)
  have t: "tx ?s2 = tx s @ (raster_header ?wb ht, 8) # map (chunk_call bitmapData ?T) [0 ..< ?N]"
    by simp
  have w: "unat (ucast (?wb AND 0xFF) :: byte) + 256 * unat (ucast (drop_bit 8 ?wb AND 0xFF) :: byte)
      = unat wd div 8"
    by (simp add: le16 unat_div)
  have h: "unat (ucast (ht AND 0xFF) :: byte) + 256 * unat (ucast (drop_bit 8 ht AND 0xFF) :: byte)
      = unat ht"
    by (rule le16)
  show ?thesis
    apply (rule exI[of _ ?s2])
    apply (rule exI[of _ "ucast (?wb AND 0xFF)"])
    apply (rule exI[of _ "ucast (drop_bit 8 ?wb AND 0xFF)"])
    apply (rule exI[of _ "ucast (ht AND 0xFF)"])
    apply (rule exI[of _ "ucast (drop_bit 8 ht AND 0xFF)"])
    using res w h by (simp add: raster_header_def)
qed

theorem printBitmap_header_and_chunks_witness:
  "(\<forall>k. 512 \<le> (\<lambda>k. 512 :: nat) k) \<and>
   unat ((512 :: u16) div 8) * unat (100 :: u16) \<le> length (replicate 6400 (0 :: byte)) \<and>
   (\<exists>s'. printBitmap (\<lambda>k. 512) \<lparr>tx = []\<rparr> 512 100 (replicate 6400 0) = Some (Inr (True, s')) \<and>
      length (tx s') = 1 + 13 \<and> snd (hd (tx s')) = 8 \<and> take 4 (fst (hd (tx s'))) = [0x1D, 0x76, 0x30, 0x00])"
proof -
  have a: "\<forall>k. 512 \<le> (\<lambda>k. 512 :: nat) k" by simp
  have b: "unat ((512 :: u16) div 8) * unat (100 :: u16) \<le> length (replicate 6400 (0 :: byte))"
    by simp
  from printBitmap_header_and_chunks[OF a b, of "\<lparr>tx = []\<rparr>"]
  obtain s' wlo whi hlo hhi where
    r: "printBitmap (\<lambda>k. 512) \<lparr>tx = []\<rparr> 512 100 (replicate 6400 0) = Some (Inr (True, s'))"
    and t: "tx s' = tx \<lparr>tx = []\<rparr> @ ([0x1D, 0x76, 0x30, 0x00, wlo, whi, hlo, hhi], 8)
                     # map (chunk_call (replicate 6400 0) (unat ((512 :: u16) div 8) * unat (100 :: u16)))
                         [0 ..< (unat ((512 :: u16) div 8) * unat (100 :: u16) + 511) div 512]"
    and l: "length (tx s') = length (tx \<lparr>tx = []\<rparr>) + 1 + (unat ((512 :: u16) div 8) * unat (100 :: u16) + 511) div 512"
    by blast
  have "length (tx s') = 1 + 13" using l by simp
  moreover have "snd (hd (tx s')) = 8" "take 4 (fst (hd (tx s'))) = [0x1D, 0x76, 0x30, 0x00]"
    using t by simp_all
  ultimately show ?thesis using a b r by blast
qed

lemma printBitmap_loop_unfold:
  assumes lt: "sent < totalBytes" and len: "totalBytes \<le> length bitmapData"
  shows "printBitmap_loop room bitmapData totalBytes sent s
     = printBitmap_loop room bitmapData totalBytes
         (sent + min (min 512 (totalBytes - sent)) (room (length (tx s))))
         (s\<lparr>tx := tx s @ [(take (min 512 (totalBytes - sent)) (drop sent bitmapData),
                            min (min 512 (totalBytes - sent)) (room (length (tx s))))]\<rparr>)"
proof -
  let ?cs = "min 512 (totalBytes - sent)"
  let ?chunk = "take ?cs (drop sent bitmapData)"
  have cs: "sent + ?cs \<le> totalBytes" using lt by (auto simp: min_def)
  have nf: "\<not> length bitmapData < sent + ?cs" using len cs by linarith
  have lc: "length ?chunk = ?cs" using nf by simp
  have w: "serial_write room s ?chunk
      = (min ?cs (room (length (tx s))), s\<lparr>tx := tx s @ [(?chunk, min ?cs (room (length (tx s))))]\<rparr>)"
    by (simp only: serial_write_def Let_def lc)
  show ?thesis
    by (subst printBitmap_loop.simps)
       (simp only: lt nf w if_True if_False Let_def prod.case)
qed

lemma printBitmap_loop_exit:
  "\<not> sent < totalBytes \<Longrightarrow> printBitmap_loop room bitmapData totalBytes sent s = Some (Inr s)"
  by (subst printBitmap_loop.simps) simp

lemma printBitmap_loop_returns_if:
  assumes len: "totalBytes \<le> length bitmapData"
  shows "totalBytes \<le> sent_after room totalBytes (length (tx s)) sent n \<Longrightarrow>
         \<exists>s'. printBitmap_loop room bitmapData totalBytes sent s = Some (Inr s')"
proof (induction n arbitrary: sent s)
  case 0
  then show ?case by (simp add: printBitmap_loop_exit)
next
  case (Suc n)
  show ?case
  proof (cases "sent < totalBytes")
    case False
    then show ?thesis by (simp add: printBitmap_loop_exit)
  next
    case True
    let ?w = "min (min 512 (totalBytes - sent)) (room (length (tx s)))"
    let ?s1 = "s\<lparr>tx := tx s @ [(take (min 512 (totalBytes - sent)) (drop sent bitmapData), ?w)]\<rparr>"
    from Suc.prems have "totalBytes \<le> sent_after room totalBytes (length (tx ?s1)) (sent + ?w) n"
      by simp
    from Suc.IH[OF this] show ?thesis
      by (simp only: printBitmap_loop_unfold[OF True len])
  qed
qed

lemma printBitmap_loop_returns_only_if:
  assumes "printBitmap_loop room bitmapData totalBytes sent s = Some r"
  shows "totalBytes \<le> length bitmapData \<longrightarrow>
         (\<exists>n s' calls. totalBytes \<le> sent_after room totalBytes (length (tx s)) sent n \<and>
            r = Inr s' \<and> tx s' = tx s @ calls \<and> resumed_chunks bitmapData totalBytes sent calls)"
  using assms
proof (induction rule: printBitmap_loop.raw_induct[rotated 1, consumes 1, case_names step])
  case (step loop room bitmapData totalBytes sent s r)
  show ?case
  proof
    assume len: "totalBytes \<le> length bitmapData"
    show "\<exists>n s' calls. totalBytes \<le> sent_after room totalBytes (length (tx s)) sent n \<and>
            r = Inr s' \<and> tx s' = tx s @ calls \<and> resumed_chunks bitmapData totalBytes sent calls"
    proof (cases "sent < totalBytes")
      case False
      with step(2) have "r = Inr s" by simp
      then show ?thesis
        using False by (intro exI[of _ 0] exI[of _ s] exI[of _ "[]"]) simp
    next
      case True
      let ?cs = "min 512 (totalBytes - sent)"
      let ?chunk = "take ?cs (drop sent bitmapData)"
      let ?w = "min ?cs (room (length (tx s)))"
      let ?s1 = "s\<lparr>tx := tx s @ [(?chunk, ?w)]\<rparr>"
      have cs: "sent + ?cs \<le> totalBytes" using True by (auto simp: min_def)
      have nf: "\<not> length bitmapData < sent + ?cs" using len cs by linarith
      have lc: "length ?chunk = ?cs" using nf by simp
      have w: "serial_write room s ?chunk = (?w, ?s1)"
        by (simp only: serial_write_def Let_def lc)
      from step(2) have "loop room bitmapData totalBytes (sent + ?w) ?s1 = Some r"
        by (simp only: True nf w if_True if_False Let_def prod.case)
      from step(1)[OF this] len
      obtain n s' calls where n: "totalBytes \<le> sent_after room totalBytes (length (tx ?s1)) (sent + ?w) n"
        "r = Inr s'" "tx s' = tx ?s1 @ calls" "resumed_chunks bitmapData totalBytes (sent + ?w) calls"
        by blast
      have a: "totalBytes \<le> sent_after room totalBytes (length (tx s)) sent (Suc n)"
        using n(1) by simp
      have b: "tx s' = tx s @ (?chunk, ?w) # calls" using n(3) by simp
      have "?w \<le> length ?chunk" unfolding lc by (rule min.cobounded1)
      then have c: "resumed_chunks bitmapData totalBytes sent ((?chunk, ?w) # calls)"
        using True n(4) by (simp only: resumed_chunks.simps simp_thms)
      show ?thesis using a n(2) b c by blast
    qed
  qed
qed

lemma sent_after_le:
  "sent \<le> totalBytes \<Longrightarrow> sent_after room totalBytes k sent n \<le> totalBytes"
proof (induction n arbitrary: k sent)
  case 0
  then show ?case by simp
next
  case (Suc n)
  have "sent + min (min 512 (totalBytes - sent)) (room k) \<le> totalBytes"
    using Suc.prems by (auto simp: min_def)
  from Suc.IH[OF this] show ?case by simp
qed

lemma sent_after_live:
  assumes live: "\<forall>k. \<exists>j \<ge> k. 1 \<le> room j"
  shows "sent \<le> totalBytes \<Longrightarrow> \<exists>n. totalBytes \<le> sent_after room totalBytes k sent n"
proof (induction "totalBytes - sent" arbitrary: sent k rule: less_induct)
  case less
  show ?case
  proof (cases "sent < totalBytes")
    case False
    then have "totalBytes \<le> sent_after room totalBytes k sent 0" by simp
    then show ?thesis by blast
  next
    case True
    from live obtain j where j: "k \<le> j" "1 \<le> room j" by blast
    have "\<exists>n. totalBytes \<le> sent_after room totalBytes k sent n"
      if "1 \<le> room (k + d)" for d
      using that
    proof (induction d arbitrary: k)
      case 0
      let ?w = "min (min 512 (totalBytes - sent)) (room k)"
      have w: "1 \<le> ?w" "sent + ?w \<le> totalBytes"
        using 0 True by (auto simp: min_def)
      then have "totalBytes - (sent + ?w) < totalBytes - sent" using True by linarith
      from less.hyps[OF this w(2), of "Suc k"]
      obtain n where "totalBytes \<le> sent_after room totalBytes (Suc k) (sent + ?w) n" by blast
      then have "totalBytes \<le> sent_after room totalBytes k sent (Suc n)" by simp
      then show ?case by blast
    next
      case (Suc d)
      show ?case
      proof (cases "1 \<le> room k")
        case True
        let ?w = "min (min 512 (totalBytes - sent)) (room k)"
        have w: "1 \<le> ?w" "sent + ?w \<le> totalBytes"
          using True \<open>sent < totalBytes\<close> by (auto simp: min_def)
        then have "totalBytes - (sent + ?w) < totalBytes - sent"
          using \<open>sent < totalBytes\<close> by linarith
        from less.hyps[OF this w(2), of "Suc k"]
        obtain n where "totalBytes \<le> sent_after room totalBytes (Suc k) (sent + ?w) n" by blast
        then have "totalBytes \<le> sent_after room totalBytes k sent (Suc n)" by simp
        then show ?thesis by blast
      next
        case False
        then have z: "room k = 0" by simp
        from Suc.prems have "1 \<le> room (Suc k + d)" by simp
        from Suc.IH[OF this]
        obtain n where "totalBytes \<le> sent_after room totalBytes (Suc k) sent n" by blast
        then have "totalBytes \<le> sent_after room totalBytes k sent (Suc n)" using z by simp
        then show ?thesis by blast
      qed
    qed
    from this[of "j - k"] j show ?thesis by simp
  qed
qed

lemma sent_after_dead:
  "\<forall>j \<ge> k. room j = 0 \<Longrightarrow> sent_after room totalBytes k sent n = sent"
  by (induction n arbitrary: k) simp_all

lemma printBitmap_loop_stuck:
  assumes "printBitmap_loop room bitmapData totalBytes sent s = Some r"
  shows "\<not> ((\<forall>k \<ge> length (tx s). room k = 0) \<and> sent < totalBytes \<and> totalBytes \<le> length bitmapData)"
  using assms
proof (induction rule: printBitmap_loop.raw_induct[rotated 1, consumes 1, case_names step])
  case (step loop room bitmapData totalBytes sent s r)
  show ?case
  proof
    assume a: "(\<forall>k \<ge> length (tx s). room k = 0) \<and> sent < totalBytes \<and> totalBytes \<le> length bitmapData"
    let ?cs = "min 512 (totalBytes - sent)"
    let ?chunk = "take ?cs (drop sent bitmapData)"
    let ?s1 = "s\<lparr>tx := tx s @ [(?chunk, 0)]\<rparr>"
    have lt: "sent < totalBytes" using a by simp
    have "sent + ?cs \<le> totalBytes" using lt by (auto simp: min_def)
    then have nf: "\<not> length bitmapData < sent + ?cs" using a by linarith
    have "room (length (tx s)) = 0" using a by simp
    then have w: "serial_write room s ?chunk = (0, ?s1)"
      by (simp add: serial_write_def Let_def)
    from step(2) have "loop room bitmapData totalBytes (sent + 0) ?s1 = Some r"
      by (simp only: lt nf w if_True if_False Let_def prod.case)
    then have "loop room bitmapData totalBytes sent ?s1 = Some r" by simp
    from step(1)[OF this] a show False by simp
  qed
qed

text \<open>
  Claim C4, as amended.  If the header write is short, \<open>printBitmap\<close> returns false after
  that one write.  If the header write is accepted whole, \<open>printBitmap\<close> never returns
  false, whatever the chunk writes accept.  With a buffer that holds the payload it then
  returns true exactly when the counts the chunk writes accept add up to the payload
  length after finitely many writes, and its chunk writes resume after the bytes
  accepted; otherwise it does not return.  So it returns true whenever the port never
  stops accepting for good, and it does not return when the payload is not empty and the
  port accepts nothing after the header.
\<close>

theorem printBitmap_false_iff_header_short:
  "(room (length (tx s)) < 8 \<longrightarrow>
      (\<exists>s'. printBitmap room s wd ht bitmapData = Some (Inr (False, s')) \<and>
            tx s' = tx s @ [(raster_header (wd div 8) ht, room (length (tx s)))])) \<and>
   (8 \<le> room (length (tx s)) \<longrightarrow>
      (\<forall>s'. printBitmap room s wd ht bitmapData \<noteq> Some (Inr (False, s')))) \<and>
   (8 \<le> room (length (tx s)) \<and> unat (wd div 8) * unat ht \<le> length bitmapData \<longrightarrow>
      ((\<exists>n. unat (wd div 8) * unat ht
              \<le> sent_after room (unat (wd div 8) * unat ht) (Suc (length (tx s))) 0 n) \<longrightarrow>
         (\<exists>s' calls. printBitmap room s wd ht bitmapData = Some (Inr (True, s')) \<and>
            tx s' = tx s @ (raster_header (wd div 8) ht, 8) # calls \<and>
            resumed_chunks bitmapData (unat (wd div 8) * unat ht) 0 calls)) \<and>
      ((\<forall>n. sent_after room (unat (wd div 8) * unat ht) (Suc (length (tx s))) 0 n
              < unat (wd div 8) * unat ht) \<longrightarrow>
         printBitmap room s wd ht bitmapData = None) \<and>
      ((\<forall>k. \<exists>j\<ge>k. 1 \<le> room j) \<longrightarrow>
         (\<exists>s'. printBitmap room s wd ht bitmapData = Some (Inr (True, s')))) \<and>
      (0 < unat (wd div 8) * unat ht \<and> (\<forall>j>length (tx s). room j = 0) \<longrightarrow>
         printBitmap room s wd ht bitmapData = None))"
proof (intro conjI impI)
  assume "room (length (tx s)) < 8"
  then show "\<exists>s'. printBitmap room s wd ht bitmapData = Some (Inr (False, s')) \<and>
            tx s' = tx s @ [(raster_header (wd div 8) ht, room (length (tx s)))]"
    by (simp add: printBitmap_def Let_def sendCommand_header min_def)
next
  assume "8 \<le> room (length (tx s))"
  then show "\<forall>s'. printBitmap room s wd ht bitmapData \<noteq> Some (Inr (False, s'))"
    by (auto simp: printBitmap_def Let_def sendCommand_header split: option.splits sum.splits)
next
  assume a: "8 \<le> room (length (tx s)) \<and> unat (wd div 8) * unat ht \<le> length bitmapData"
  define T where "T = unat (wd div 8) * unat ht"
  define s1 where "s1 = s\<lparr>tx := tx s @ [(raster_header (wd div 8) ht, 8)]\<rparr>"
  from a have len: "T \<le> length bitmapData" by (simp add: T_def)
  have hdr: "sendCommand room s (raster_header (wd div 8) ht) = (True, s1)"
    using a by (simp add: sendCommand_header min_def s1_def)
  have pb: "printBitmap room s wd ht bitmapData
      = (case printBitmap_loop room bitmapData T 0 s1 of
           None \<Rightarrow> None
         | Some (Inl e) \<Rightarrow> Some (Inl e)
         | Some (Inr s2) \<Rightarrow> Some (Inr (True, s2)))"
    by (simp add: printBitmap_def Let_def hdr T_def)
  have l1: "length (tx s1) = Suc (length (tx s))" by (simp add: s1_def)
  have yes: "\<exists>s' calls. printBitmap room s wd ht bitmapData = Some (Inr (True, s')) \<and>
            tx s' = tx s @ (raster_header (wd div 8) ht, 8) # calls \<and>
            resumed_chunks bitmapData T 0 calls"
    if "\<exists>n. T \<le> sent_after room T (Suc (length (tx s))) 0 n"
  proof -
    from that obtain n where "T \<le> sent_after room T (length (tx s1)) 0 n"
      unfolding l1 by blast
    from printBitmap_loop_returns_if[OF len this]
    obtain s' where s': "printBitmap_loop room bitmapData T 0 s1 = Some (Inr s')" by blast
    from printBitmap_loop_returns_only_if[OF s'] len
    obtain calls where "tx s' = tx s1 @ calls" "resumed_chunks bitmapData T 0 calls" by blast
    then show ?thesis using s' by (simp add: pb s1_def)
  qed
  have no: "printBitmap room s wd ht bitmapData = None"
    if n: "\<forall>n. sent_after room T (Suc (length (tx s))) 0 n < T"
  proof (cases "printBitmap_loop room bitmapData T 0 s1")
    case None
    then show ?thesis by (simp add: pb)
  next
    case (Some r)
    from printBitmap_loop_returns_only_if[OF Some] len
    obtain m where "T \<le> sent_after room T (length (tx s1)) 0 m" by blast
    with n show ?thesis unfolding l1 by (simp add: not_less[symmetric])
  qed
  show "(\<exists>n. unat (wd div 8) * unat ht
              \<le> sent_after room (unat (wd div 8) * unat ht) (Suc (length (tx s))) 0 n) \<Longrightarrow>
         \<exists>s' calls. printBitmap room s wd ht bitmapData = Some (Inr (True, s')) \<and>
            tx s' = tx s @ (raster_header (wd div 8) ht, 8) # calls \<and>
            resumed_chunks bitmapData (unat (wd div 8) * unat ht) 0 calls"
    using yes unfolding T_def by blast
  show "\<forall>n. sent_after room (unat (wd div 8) * unat ht) (Suc (length (tx s))) 0 n
              < unat (wd div 8) * unat ht \<Longrightarrow>
         printBitmap room s wd ht bitmapData = None"
    using no unfolding T_def by blast
  show "\<exists>s'. printBitmap room s wd ht bitmapData = Some (Inr (True, s'))"
    if "\<forall>k. \<exists>j\<ge>k. 1 \<le> room j"
  proof -
    from sent_after_live[OF that, of 0 T "Suc (length (tx s))"]
    have "\<exists>n. T \<le> sent_after room T (Suc (length (tx s))) 0 n" by simp
    from yes[OF this] show ?thesis by blast
  qed
  show "printBitmap room s wd ht bitmapData = None"
    if d: "0 < unat (wd div 8) * unat ht \<and> (\<forall>j>length (tx s). room j = 0)"
  proof -
    from d have "\<forall>j \<ge> Suc (length (tx s)). room j = 0" by (simp add: Suc_le_eq)
    then have "sent_after room T (Suc (length (tx s))) 0 n = 0" for n
      by (rule sent_after_dead)
    then have "\<forall>n. sent_after room T (Suc (length (tx s))) 0 n < T"
      using d by (simp add: T_def)
    then show ?thesis by (rule no)
  qed
qed

text \<open>
  Claim C4 as stated fails where it says that \<open>printBitmap\<close> returns true whenever the
  header write succeeds: a port that accepts the header and then nothing keeps the chunk
  loop running, and the call does not return.
\<close>

theorem printBitmap_stalled_counterexample:
  "fst (sendCommand stalled_room \<lparr>tx = []\<rparr> (raster_header (8 div 8) 1)) \<and>
   printBitmap stalled_room \<lparr>tx = []\<rparr> 8 1 [0] = None"
proof -
  let ?s1 = "\<lparr>tx = [] @ [(raster_header (8 div 8) 1, min 8 (stalled_room (length (tx \<lparr>tx = []\<rparr>))))]\<rparr>"
  have a: "sendCommand stalled_room \<lparr>tx = []\<rparr> (raster_header (8 div 8) 1) = (True, ?s1)"
    by (simp add: sendCommand_header stalled_room_def)
  have "printBitmap_loop stalled_room [0] 1 0 ?s1 = None"
  proof (cases "printBitmap_loop stalled_room [0] 1 0 ?s1")
    case (Some r)
    from printBitmap_loop_stuck[OF Some] show ?thesis
      by (simp add: stalled_room_def)
  qed simp
  then have "printBitmap stalled_room \<lparr>tx = []\<rparr> 8 1 [0] = None"
    using a by (simp add: printBitmap_def Let_def)
  with a show ?thesis by simp
qed

theorem printBitmap_false_iff_header_short_witness:
  "(\<lambda>k. 7 :: nat) (length (tx \<lparr>tx = []\<rparr>)) < 8 \<and>
   (\<exists>s'. printBitmap (\<lambda>k. 7) \<lparr>tx = []\<rparr> 16 2 [1, 2, 3, 4] = Some (Inr (False, s')) \<and> length (tx s') = 1) \<and>
   8 \<le> hiccup_room (length (tx \<lparr>tx = []\<rparr>)) \<and> (\<forall>k. \<exists>j\<ge>k. 1 \<le> hiccup_room j) \<and>
   unat ((16 :: u16) div 8) * unat (2 :: u16) \<le> length [1, 2, 3, 4 :: byte] \<and>
   (\<exists>s'. printBitmap hiccup_room \<lparr>tx = []\<rparr> 16 2 [1, 2, 3, 4] = Some (Inr (True, s'))) \<and>
   printBitmap hiccup_room \<lparr>tx = []\<rparr> 16 2 [1, 2, 3, 4] \<noteq> Some (Inr (False, \<lparr>tx = []\<rparr>)) \<and>
   8 \<le> stalled_room (length (tx \<lparr>tx = []\<rparr>)) \<and>
   printBitmap stalled_room \<lparr>tx = []\<rparr> 16 2 [1, 2, 3, 4] = None"
proof -
  note A = printBitmap_false_iff_header_short[of "\<lambda>k. 7" "\<lparr>tx = []\<rparr>" 16 2 "[1, 2, 3, 4]"]
  note B = printBitmap_false_iff_header_short[of hiccup_room "\<lparr>tx = []\<rparr>" 16 2 "[1, 2, 3, 4]"]
  note C = printBitmap_false_iff_header_short[of stalled_room "\<lparr>tx = []\<rparr>" 16 2 "[1, 2, 3, 4]"]
  have h: "8 \<le> hiccup_room (length (tx \<lparr>tx = []\<rparr>))"
    "unat ((16 :: u16) div 8) * unat (2 :: u16) \<le> length [1, 2, 3, 4 :: byte]"
    by (simp_all add: hiccup_room_def)
  have live: "\<forall>k. \<exists>j\<ge>k. 1 \<le> hiccup_room j"
  proof
    fix k
    have "k \<le> k + 2" "1 \<le> hiccup_room (k + 2)" by (simp_all add: hiccup_room_def)
    then show "\<exists>j\<ge>k. 1 \<le> hiccup_room j" by blast
  qed
  have d: "8 \<le> stalled_room (length (tx \<lparr>tx = []\<rparr>))" "\<forall>j>length (tx \<lparr>tx = []\<rparr>). stalled_room j = 0"
    "0 < unat ((16 :: u16) div 8) * unat (2 :: u16)"
    by (simp_all add: stalled_room_def)
  have "\<exists>s'. printBitmap (\<lambda>k. 7) \<lparr>tx = []\<rparr> 16 2 [1, 2, 3, 4] = Some (Inr (False, s')) \<and> length (tx s') = 1"
    using A by auto
  moreover have "\<exists>s'. printBitmap hiccup_room \<lparr>tx = []\<rparr> 16 2 [1, 2, 3, 4] = Some (Inr (True, s'))"
    using B h live by blast
  moreover have "printBitmap hiccup_room \<lparr>tx = []\<rparr> 16 2 [1, 2, 3, 4] \<noteq> Some (Inr (False, \<lparr>tx = []\<rparr>))"
    using B h by blast
  moreover have "printBitmap stalled_room \<lparr>tx = []\<rparr> 16 2 [1, 2, 3, 4] = None"
    using C h(2) d by blast
  ultimately show ?thesis using h live d by simp
qed

subsection \<open>Packet checksum\<close>

lemma foldl_xor: "foldl (XOR) (a :: byte) xs = a XOR foldr (XOR) xs 0"
  by (induction xs arbitrary: a) (simp_all add: xor.assoc)

lemma foldr_xor_update:
  "j < length xs \<Longrightarrow> foldr (XOR) (xs[j := b]) (0 :: byte) = foldr (XOR) xs 0 XOR (xs ! j) XOR b"
proof (induction xs arbitrary: j)
  case Nil
  then show ?case by simp
next
  case (Cons x xs)
  show ?case
  proof (cases j)
    case 0
    have "x XOR (b XOR x) = b"
      by (metis bit.xor_left_self xor.commute)
    then have "x XOR (b XOR x) XOR foldr (XOR) xs 0 = b XOR foldr (XOR) xs 0"
      by (simp only: xor.assoc[symmetric])
    then show ?thesis using 0 by (simp add: xor.commute xor.left_commute)
  next
    case (Suc k)
    then show ?thesis using Cons by (simp add: xor.assoc)
  qed
qed

lemma xor_cancel_ne: "(a :: byte) \<noteq> b \<Longrightarrow> k XOR a \<noteq> k XOR b"
proof
  assume ne: "a \<noteq> b" and eq: "k XOR a = k XOR b"
  from eq have "k XOR (k XOR a) = k XOR (k XOR b)" by simp
  then have "a = b" by (simp only: bit.xor_left_self)
  with ne show False by simp
qed

lemma receivePacket_accepts:
  "fst (receivePacket rx pkt) \<longleftrightarrow>
     (4 \<le> length rx \<and> hd rx = 0xAA \<and> unat (rx ! 2) \<le> 32 \<and>
      unat (rx ! 2) + 4 \<le> length rx \<and>
      0xAA XOR rx ! 1 XOR rx ! 2 XOR foldr (XOR) (take (unat (rx ! 2)) (drop 3 rx)) 0
        = rx ! (unat (rx ! 2) + 3))"
  by (auto simp: receivePacket_def Let_def foldl_xor add.commute xor.assoc)

lemma frame_bytes_Cons: "frame_bytes C L P = 0xAA # C # L # (P @ [0xAA XOR C XOR L XOR foldr (XOR) P 0])"
  by (simp add: frame_bytes_def)

lemma sendPacket_frame:
  assumes "unat L = length P" "length P \<le> 32"
  shows "sendPacket C P L = Inr (frame_bytes C L P)"
  using assms by (simp add: sendPacket_def frame_bytes_def Let_def foldl_xor xor.assoc)

lemma receivePacket_frame:
  assumes L: "unat L = length P" and P32: "length P \<le> 32"
  shows "fst (receivePacket (frame_bytes C L P @ rest) pkt)"
  unfolding receivePacket_accepts frame_bytes_Cons
  using assms by (simp add: nth_append)

lemma xor_eq_cancel: "((k :: byte) XOR a = k XOR b) = (a = b)"
  using xor_cancel_ne[of a b k] by auto

lemma xor_eq_cancel_right: "((a :: byte) XOR k = b XOR k) = (a = b)"
  using xor_eq_cancel[of k a b] by (simp add: xor.commute)

lemma receivePacket_corrupted:
  assumes L: "unat L = length P" and P32: "length P \<le> 32"
    and i: "i < length (frame_bytes C L P)" "i \<noteq> 2"
    and b: "b \<noteq> frame_bytes C L P ! i"
  shows "\<not> fst (receivePacket ((frame_bytes C L P)[i := b] @ rest) pkt)"
proof -
  let ?ck = "0xAA XOR C XOR L XOR foldr (XOR) P 0"
  have len: "i < length P + 4" using i(1) by (simp add: frame_bytes_def)
  have "i = 0 \<or> i = 1 \<or> (\<exists>j. i = j + 3 \<and> j < length P) \<or> i = length P + 3"
    using len i(2) by presburger
  then consider "i = 0" | "i = 1" | j where "i = j + 3" "j < length P" | "i = length P + 3"
    by blast
  then show ?thesis
  proof cases
    case 1
    with b have "b \<noteq> 0xAA" by (simp add: frame_bytes_Cons)
    then show ?thesis
      unfolding receivePacket_accepts using 1 by (simp add: frame_bytes_Cons)
  next
    case 2
    with b have bc: "b \<noteq> C" by (simp add: frame_bytes_Cons)
    have rx: "(frame_bytes C L P)[i := b] @ rest = 0xAA # b # L # (P @ [?ck]) @ rest"
      using 2 by (simp add: frame_bytes_Cons)
    show ?thesis
      unfolding receivePacket_accepts rx
      using L bc by (simp add: nth_append xor_eq_cancel xor_eq_cancel_right)
  next
    case 3
    with b have bp: "b \<noteq> P ! j" by (simp add: frame_bytes_Cons nth_append)
    have rx: "(frame_bytes C L P)[i := b] @ rest = 0xAA # C # L # (P[j := b] @ [?ck]) @ rest"
      using 3 by (simp add: frame_bytes_Cons list_update_append numeral_3_eq_3)
    have ne: "foldr (XOR) (P[j := b]) 0 \<noteq> foldr (XOR) P 0"
    proof
      assume "foldr (XOR) (P[j := b]) 0 = foldr (XOR) P 0"
      then have "foldr (XOR) P 0 XOR (P ! j XOR b) = foldr (XOR) P 0 XOR 0"
        using foldr_xor_update[OF 3(2), of b] by (simp add: xor.assoc)
      then have "P ! j XOR b = 0" by (simp only: xor_eq_cancel)
      then have "P ! j XOR b = b XOR b" by simp
      then have "P ! j = b" by (simp only: xor_eq_cancel_right)
      with bp show False by simp
    qed
    show ?thesis
      unfolding receivePacket_accepts rx
      using L ne by (simp add: nth_append xor_eq_cancel)
  next
    case 4
    with b have bk: "b \<noteq> ?ck" by (simp add: frame_bytes_Cons nth_append)
    have rx: "(frame_bytes C L P)[i := b] @ rest = 0xAA # C # L # (P @ [b]) @ rest"
      using 4 by (simp add: frame_bytes_Cons list_update_append numeral_3_eq_3)
    show ?thesis
      unfolding receivePacket_accepts rx
      using L bk by (auto simp: nth_append)
  qed
qed

lemma receivePacket_long_length:
  assumes "32 < unat b"
  shows "\<not> fst (receivePacket ((frame_bytes C L P)[2 := b] @ rest) pkt)"
  unfolding receivePacket_accepts using assms by (simp add: frame_bytes_Cons)

lemma receivePacket_only_frames:
  assumes "fst (receivePacket rx pkt)"
  shows "\<exists>C L P rest. rx = frame_bytes C L P @ rest \<and> unat L = length P \<and> length P \<le> 32"
proof -
  from assms have a: "4 \<le> length rx" "hd rx = 0xAA" "unat (rx ! 2) \<le> 32"
      "unat (rx ! 2) + 4 \<le> length rx"
      "0xAA XOR rx ! 1 XOR rx ! 2 XOR foldr (XOR) (take (unat (rx ! 2)) (drop 3 rx)) 0
        = rx ! (unat (rx ! 2) + 3)"
    unfolding receivePacket_accepts by simp_all
  let ?n = "unat (rx ! 2)"
  let ?P = "take ?n (drop 3 rx)"
  have lp: "length ?P = ?n" using a(4) by simp
  have "rx = take 3 rx @ ?P @ [rx ! (?n + 3)] @ drop (?n + 4) rx"
  proof -
    have "drop 3 rx = ?P @ drop ?n (drop 3 rx)" by (simp only: append_take_drop_id)
    moreover have "drop ?n (drop 3 rx) = rx ! (?n + 3) # drop (?n + 4) rx"
    proof -
      have "?n + 3 < length rx" using a(4) by simp
      from Cons_nth_drop_Suc[OF this] have "drop (?n + 3) rx = rx ! (?n + 3) # drop (?n + 4) rx"
        by (simp add: numeral_eq_Suc)
      then show ?thesis by (simp add: add.commute)
    qed
    ultimately have "drop 3 rx = ?P @ [rx ! (?n + 3)] @ drop (?n + 4) rx" by simp
    then show ?thesis by (metis append_take_drop_id)
  qed
  moreover have "take 3 rx = [0xAA, rx ! 1, rx ! 2]"
  proof -
    obtain x0 x1 x2 xs where rx: "rx = x0 # x1 # x2 # xs"
      using a(1) by (cases rx; cases "tl rx"; cases "tl (tl rx)") auto
    then show ?thesis using a(2) by simp
  qed
  ultimately have "rx = frame_bytes (rx ! 1) (rx ! 2) ?P @ drop (?n + 4) rx"
    using a(5) by (simp add: frame_bytes_def)
  then show ?thesis using lp a(3) by metis
qed

text \<open>
  Claim C7, as amended.  For a command \<open>C\<close> and a payload \<open>P\<close> of \<open>L \<le> 32\<close> bytes,
  \<open>sendPacket\<close> transmits \<open>0xAA, C, L, P\<close> and the checksum
  \<open>0xAA XOR C XOR L XOR P[0] XOR ... XOR P[L-1]\<close>, and the receiver accepts that frame.
  Changing one byte of the frame other than the length byte (the header, the command, a
  payload byte or the checksum) to a different value makes the receiver refuse it, and so
  does changing the length byte to a value above 32.  Every byte sequence the receiver
  accepts starts with such a frame.
\<close>

theorem packet_checksum_detects_corruption:
  assumes L: "unat L = length P" and P32: "length P \<le> 32"
  shows "sendPacket C P L = Inr (frame_bytes C L P) \<and>
         last (frame_bytes C L P) = 0xAA XOR C XOR L XOR foldr (XOR) P 0 \<and>
         fst (receivePacket (frame_bytes C L P @ rest) pkt) \<and>
         (\<forall>i b. i < length (frame_bytes C L P) \<and> i \<noteq> 2 \<and> b \<noteq> frame_bytes C L P ! i \<longrightarrow>
            \<not> fst (receivePacket ((frame_bytes C L P)[i := b] @ rest) pkt)) \<and>
         (\<forall>b. 32 < unat b \<longrightarrow> \<not> fst (receivePacket ((frame_bytes C L P)[2 := b] @ rest) pkt)) \<and>
         (\<forall>rx. fst (receivePacket rx pkt) \<longrightarrow>
            (\<exists>C' L' P' rest'. rx = frame_bytes C' L' P' @ rest' \<and> unat L' = length P' \<and> length P' \<le> 32))"
  using sendPacket_frame[OF L P32] receivePacket_frame[OF L P32]
    receivePacket_corrupted[OF L P32] receivePacket_long_length receivePacket_only_frames
  by (simp add: frame_bytes_def)

text \<open>
  Claim C7 as stated fails for the length byte.  The frame \<open>AA 00 01 AA 01\<close> is what
  \<open>sendPacket\<close> transmits for command 0 and payload \<open>AA\<close>, and it validates.  With its length
  byte changed from 1 to 0 the receiver reads an empty payload, takes the old payload byte
  \<open>AA\<close> for the checksum, and \<open>0xAA XOR 0 XOR 0\<close> is \<open>AA\<close>: the changed frame validates too.
\<close>

theorem packet_length_corruption_counterexample:
  "sendPacket 0 [0xAA] 1 = Inr [0xAA, 0, 1, 0xAA, 1] \<and>
   fst (receivePacket [0xAA, 0, 1, 0xAA, 1] blank_packet) \<and>
   [0xAA, 0, 1, 0xAA, 1 :: byte][2 := 0] = [0xAA, 0, 0, 0xAA, 1] \<and>
   fst (receivePacket [0xAA, 0, 0, 0xAA, 1] blank_packet)"
  by (simp add: sendPacket_def receivePacket_def blank_packet_def Let_def)

theorem packet_checksum_detects_corruption_witness:
  "unat (2 :: byte) = length [0x10, 0x20 :: byte] \<and> length [0x10, 0x20 :: byte] \<le> 32 \<and>
   sendPacket 7 [0x10, 0x20] 2 = Inr [0xAA, 7, 2, 0x10, 0x20, 0x9F] \<and>
   fst (receivePacket [0xAA, 7, 2, 0x10, 0x20, 0x9F] blank_packet) \<and>
   \<not> fst (receivePacket [0xAA, 7, 2, 0x11, 0x20, 0x9F] blank_packet) \<and>
   \<not> fst (receivePacket [0xAA, 7, 2, 0x10, 0x20, 0x9E] blank_packet) \<and>
   \<not> fst (receivePacket [0xAA, 7, 33, 0x10, 0x20, 0x9F] blank_packet)"
proof -
  have h: "unat (2 :: byte) = length [0x10, 0x20 :: byte]" "length [0x10, 0x20 :: byte] \<le> 32"
    by simp_all
  note T = packet_checksum_detects_corruption[OF h, of 7 "[]" blank_packet]
  have f: "frame_bytes 7 2 [0x10, 0x20] = [0xAA, 7, 2, 0x10, 0x20, 0x9F]"
    by (simp add: frame_bytes_def)
  from T have 1: "sendPacket 7 [0x10, 0x20] 2 = Inr [0xAA, 7, 2, 0x10, 0x20, 0x9F]"
    and 2: "fst (receivePacket [0xAA, 7, 2, 0x10, 0x20, 0x9F] blank_packet)"
    and 3: "\<And>i b. i < 6 \<Longrightarrow> i \<noteq> 2 \<Longrightarrow> b \<noteq> [0xAA, 7, 2, 0x10, 0x20, 0x9F] ! i \<Longrightarrow>
            \<not> fst (receivePacket ([0xAA, 7, 2, 0x10, 0x20, 0x9F][i := b]) blank_packet)"
    and 4: "\<And>b. 32 < unat b \<Longrightarrow> \<not> fst (receivePacket ([0xAA, 7, 2, 0x10, 0x20, 0x9F][2 := b]) blank_packet)"
    unfolding f by simp_all
  from 3[of 3 "0x11"] have 5: "\<not> fst (receivePacket [0xAA, 7, 2, 0x11, 0x20, 0x9F] blank_packet)"
    by simp
  from 3[of 5 "0x9E"] have 6: "\<not> fst (receivePacket [0xAA, 7, 2, 0x10, 0x20, 0x9E] blank_packet)"
    by simp
  from 4[of 33] have 7: "\<not> fst (receivePacket [0xAA, 7, 33, 0x10, 0x20, 0x9F] blank_packet)"
    by simp
  show ?thesis using h 1 2 5 6 7 by simp
qed

subsection \<open>generateBuildUpCurve\<close>







text \<open>
  Claim C8, as amended.  The series that \<open>generateBuildUpCurve\<close> returns, and the seed it
  leaves, depend on the generator only through the seed it holds and \<open>yMax\<close>: two
  generators that agree on these give the same series for the same arguments.  The seed
  a new generator holds is the timer reading taken by the constructor.
\<close>

theorem generateBuildUpCurve_seed_determines_output:
  "(randSeed g1 = randSeed g2 \<and> yMax g1 = yMax g2 \<longrightarrow>
      fst (generateBuildUpCurve rnd g1 numPoints pattern alloc_ok)
        = fst (generateBuildUpCurve rnd g2 numPoints pattern alloc_ok) \<and>
      randSeed (snd (generateBuildUpCurve rnd g1 numPoints pattern alloc_ok))
        = randSeed (snd (generateBuildUpCurve rnd g2 numPoints pattern alloc_ok))) \<and>
   (\<forall>g. newGraphGenerator cnv w h lm tm xmax xstp ymax ystp gridX gridY micros = Inr g \<longrightarrow>
      randSeed g = micros)"
proof (intro conjI impI allI)
  assume a: "randSeed g1 = randSeed g2 \<and> yMax g1 = yMax g2"
  have rf: "fst (random_float rnd g1 lo hi) = fst (random_float rnd g2 lo hi) \<and>
            randSeed (snd (random_float rnd g1 lo hi)) = randSeed (snd (random_float rnd g2 lo hi)) \<and>
            yMax (snd (random_float rnd g1 lo hi)) = yMax (snd (random_float rnd g2 lo hi))"
    if "randSeed g1 = randSeed g2 \<and> yMax g1 = yMax g2" for g1 g2 lo hi
    using that by (simp add: random_float_def Let_def)
  have rv: "fst (rise_value rnd pattern R g1 i) = fst (rise_value rnd pattern R g2 i) \<and>
            randSeed (snd (rise_value rnd pattern R g1 i)) = randSeed (snd (rise_value rnd pattern R g2 i)) \<and>
            yMax (snd (rise_value rnd pattern R g1 i)) = yMax (snd (rise_value rnd pattern R g2 i))"
    if "randSeed g1 = randSeed g2 \<and> yMax g1 = yMax g2" for g1 g2 R i
    using that rf[OF that, of "- 3" 3] rf[OF that, of "- 8" 8]
    by (simp add: rise_value_def Let_def split_beta)
  have rl: "fst (rise_loop rnd pattern R g1 js) = fst (rise_loop rnd pattern R g2 js) \<and>
            randSeed (snd (rise_loop rnd pattern R g1 js)) = randSeed (snd (rise_loop rnd pattern R g2 js))"
    if "randSeed g1 = randSeed g2 \<and> yMax g1 = yMax g2" for g1 g2 R js
    using that
  proof (induction js arbitrary: g1 g2)
    case Nil
    then show ?case by simp
  next
    case (Cons j js)
    from rv[OF Cons.prems, of R j] Cons.IH[of "snd (rise_value rnd pattern R g1 j)" "snd (rise_value rnd pattern R g2 j)"]
    show ?case by (simp add: split_beta)
  qed
  from rl[OF a] a
  show "fst (generateBuildUpCurve rnd g1 numPoints pattern alloc_ok)
        = fst (generateBuildUpCurve rnd g2 numPoints pattern alloc_ok)"
    and "randSeed (snd (generateBuildUpCurve rnd g1 numPoints pattern alloc_ok))
        = randSeed (snd (generateBuildUpCurve rnd g2 numPoints pattern alloc_ok))"
    by (simp_all add: generateBuildUpCurve_def Let_def split_beta)
next
  fix g assume "newGraphGenerator cnv w h lm tm xmax xstp ymax ystp gridX gridY micros = Inr g"
  then show "randSeed g = micros"
    by (auto simp: newGraphGenerator_def split: if_splits)
qed

lemma generateBuildUpCurve_first:
  assumes "pattern = 1 \<or> pattern = 2" "0 < (unat numPoints * 26) div 30"
  shows "\<exists>dat. fst (generateBuildUpCurve rnd g numPoints pattern True) = Some dat \<and>
           dat ! 0 = fst (rise_value rnd pattern ((unat numPoints * 26) div 30) g 0)"
proof -
  define R where "R = (unat numPoints * 26) div 30"
  from assms(2) have "[0 ..< R] = 0 # [1 ..< R]"
    unfolding R_def by (simp add: upt_conv_Cons)
  then show ?thesis
    using assms(1) by (simp add: generateBuildUpCurve_def Let_def split_beta R_def)
qed

text \<open>
  Claim C8 as stated fails where it says that the seed is an injectable parameter: the
  constructor takes the seed from the timer, so two generators built with the same
  arguments at timer readings 1 and 2 return different series for the same call (in
  exact arithmetic the first entries are \<open>178714599 / 2147483647\<close> and 0).
\<close>

theorem generateBuildUpCurve_timer_seed_counterexample:
  "newGraphGenerator None 512 1200 30 70 30 2 200 25 80 60 1 = Inr (demo_generator 1) \<and>
   newGraphGenerator None 512 1200 30 70 30 2 200 25 80 60 2 = Inr (demo_generator 2) \<and>
   fst (generateBuildUpCurve (\<lambda>x. x) (demo_generator 1) 30 1 True)
     \<noteq> fst (generateBuildUpCurve (\<lambda>x. x) (demo_generator 2) 30 1 True)"
proof -
  have p: "(1 :: byte) = 1 \<or> (1 :: byte) = 2" "0 < (unat (30 :: u16) * 26) div 30" by simp_all
  from generateBuildUpCurve_first[OF p, of "\<lambda>x. x" "demo_generator 1"]
  obtain d1 where d1: "fst (generateBuildUpCurve (\<lambda>x. x) (demo_generator 1) 30 1 True) = Some d1"
    "d1 ! 0 = fst (rise_value (\<lambda>x. x) 1 ((unat (30 :: u16) * 26) div 30) (demo_generator 1) 0)" by blast
  from generateBuildUpCurve_first[OF p, of "\<lambda>x. x" "demo_generator 2"]
  obtain d2 where d2: "fst (generateBuildUpCurve (\<lambda>x. x) (demo_generator 2) 30 1 True) = Some d2"
    "d2 ! 0 = fst (rise_value (\<lambda>x. x) 1 ((unat (30 :: u16) * 26) div 30) (demo_generator 2) 0)" by blast
  have v1: "d1 ! 0 = 178714599 / 2147483647"
    unfolding d1(2) by (simp add: rise_value_def random_float_def constrain_def demo_generator_def Let_def)
  have v2: "d2 ! 0 = 0"
    unfolding d2(2) by (simp add: rise_value_def random_float_def constrain_def demo_generator_def Let_def)
  have "d1 \<noteq> d2" using v1 v2 by auto
  then show ?thesis
    using d1(1) d2(1) by (simp add: newGraphGenerator_def demo_generator_def)
qed

theorem generateBuildUpCurve_seed_determines_output_witness:
  "randSeed (demo_generator 7) = randSeed ((demo_generator 7)\<lparr>gwidth := 100, topMargin := 3\<rparr>) \<and>
   yMax (demo_generator 7) = yMax ((demo_generator 7)\<lparr>gwidth := 100, topMargin := 3\<rparr>) \<and>
   fst (generateBuildUpCurve (\<lambda>x. x) (demo_generator 7) 30 1 True)
     = fst (generateBuildUpCurve (\<lambda>x. x) ((demo_generator 7)\<lparr>gwidth := 100, topMargin := 3\<rparr>) 30 1 True) \<and>
   newGraphGenerator None 512 1200 30 70 30 2 200 25 80 60 5 = Inr (demo_generator 5) \<and>
   randSeed (demo_generator 5) = 5"
proof -
  have h: "randSeed (demo_generator 7) = randSeed ((demo_generator 7)\<lparr>gwidth := 100, topMargin := 3\<rparr>) \<and>
      yMax (demo_generator 7) = yMax ((demo_generator 7)\<lparr>gwidth := 100, topMargin := 3\<rparr>)"
    by simp
  have n: "newGraphGenerator None 512 1200 30 70 30 2 200 25 80 60 5 = Inr (demo_generator 5)"
    by (simp add: newGraphGenerator_def demo_generator_def)
  note T = generateBuildUpCurve_seed_determines_output[of "demo_generator 7"
      "(demo_generator 7)\<lparr>gwidth := 100, topMargin := 3\<rparr>" "\<lambda>x. x" 30 1 True
      None 512 1200 30 70 30 2 200 25 80 60 5]
  from T h have "fst (generateBuildUpCurve (\<lambda>x. x) (demo_generator 7) 30 1 True)
     = fst (generateBuildUpCurve (\<lambda>x. x) ((demo_generator 7)\<lparr>gwidth := 100, topMargin := 3\<rparr>) 30 1 True)"
    by blast
  moreover from T n have "randSeed (demo_generator 5) = 5" by blast
  ultimately show ?thesis using h n by simp
qed

subsection \<open>drawCurve and applyMovingAverage\<close>











lemma sint_s16_of_int: "- 32768 \<le> k \<Longrightarrow> k \<le> 32767 \<Longrightarrow> sint (word_of_int k :: s16) = k"
  by (simp add: sint_sbintrunc' signed_take_bit_int_eq_self)

lemma sint_s16_succ: "sint (j :: s16) < 32767 \<Longrightarrow> sint (j + 1) = sint j + 1"
proof -
  assume a: "sint j < 32767"
  have "- 32768 \<le> sint j" using sint_ge[of j] by simp
  then have "sint (word_of_int (sint j + 1) :: s16) = sint j + 1"
    using a by (intro sint_s16_of_int) simp_all
  moreover have "(word_of_int (sint j + 1) :: s16) = j + 1" by simp
  ultimately show ?thesis by simp
qed

lemma window_sum_result:
  assumes b: "bound + 1 \<le> 32767" and len: "unat dataLen \<le> length dat"
  shows "sint j \<le> bound + 1 \<Longrightarrow>
         window_sum rnd dat dataLen bound (j, s, c)
           = Some (Inr (foldl (\<lambda>s x. rnd (s + x)) s
                          (map ((!) dat) [nat (sint j) ..< nat (min (bound + 1) (uint dataLen))]),
                        c + of_nat (length [nat (sint j) ..< nat (min (bound + 1) (uint dataLen))])))"
proof (induction "nat (bound + 1 - sint j)" arbitrary: j s c)
  case 0
  then have e: "sint j = bound + 1" by simp
  then have "[nat (sint j) ..< nat (min (bound + 1) (uint dataLen))] = []" by simp
  then show ?case
    using e by (subst window_sum.simps) simp
next
  case (Suc d)
  then have le: "sint j \<le> bound" by linarith
  then have lt: "sint j < 32767" using b by linarith
  have sj: "sint (j + 1) = sint j + 1" by (rule sint_s16_succ[OF lt])
  have d: "d = nat (bound + 1 - sint (j + 1))" using Suc.hyps(2) sj by linarith
  have le1: "sint (j + 1) \<le> bound + 1" using le sj by linarith
  let ?X = "nat (min (bound + 1) (uint dataLen))"
  show ?case
  proof (cases "0 \<le> sint j \<and> sint j < uint dataLen")
    case True
    then have "nat (sint j) < unat dataLen" by (simp add: nat_less_iff)
    then have inb: "nat (sint j) < length dat" using len by linarith
    have ltX: "nat (sint j) < ?X" using True le by (simp add: nat_less_iff)
    have l: "[nat (sint j) ..< ?X] = nat (sint j) # [nat (sint (j + 1)) ..< ?X]"
      using ltX True sj by (simp add: upt_conv_Cons nat_add_distrib)
    have "window_sum rnd dat dataLen bound (j, s, c)
        = window_sum rnd dat dataLen bound (j + 1, rnd (s + dat ! nat (sint j)), c + 1)"
      using le True inb by (subst window_sum.simps) simp
    also note Suc.hyps(1)[OF d le1, of "rnd (s + dat ! nat (sint j))" "c + 1"]
    finally show ?thesis
      unfolding l by (simp add: add.assoc)
  next
    case False
    have l: "[nat (sint j) ..< ?X] = [nat (sint (j + 1)) ..< ?X]"
    proof (cases "sint j < 0")
      case True
      then show ?thesis using sj by simp
    next
      case n: False
      with False have "uint dataLen \<le> sint j" by simp
      then have "?X \<le> nat (sint j)" "?X \<le> nat (sint (j + 1))" using sj by simp_all
      then show ?thesis by simp
    qed
    have "window_sum rnd dat dataLen bound (j, s, c)
        = window_sum rnd dat dataLen bound (j + 1, s, c)"
      using le False by (subst window_sum.simps) auto
    also note Suc.hyps(1)[OF d le1, of s c]
    finally show ?thesis unfolding l .
  qed
qed

lemma window_sum_diverges:
  assumes "window_sum rnd dat dataLen bound st = Some r"
  shows "\<not> (32767 \<le> bound \<and> unat dataLen \<le> length dat)"
  using assms
proof (induction rule: window_sum.raw_induct[rotated 1, consumes 1, case_names step])
  case (step loop rnd dat dataLen bound st r)
  show ?case
  proof
    assume a: "32767 \<le> bound \<and> unat dataLen \<le> length dat"
    obtain j s c where st: "st = (j, s, c)" by (cases st) auto
    have "sint j \<le> 32767" using sint_lt[of j] by simp
    then have le: "sint j \<le> bound" using a by linarith
    show False
    proof (cases "0 \<le> sint j \<and> sint j < uint dataLen")
      case True
      then have "nat (sint j) < unat dataLen" by (simp add: nat_less_iff)
      then have inb: "nat (sint j) < length dat" using a by linarith
      from step(2) have "loop rnd dat dataLen bound (j + 1, rnd (s + dat ! nat (sint j)), c + 1) = Some r"
        using le True inb by (simp add: st)
      from step(1)[OF this] a show False by simp
    next
      case False
      from step(2) have "loop rnd dat dataLen bound (j + 1, s, c) = Some r"
        using le False by (auto simp: st)
      from step(1)[OF this] a show False by simp
    qed
  qed
qed

lemma average_at_result:
  assumes len: "length dat = unat dataLen" and i: "i < length dat"
    and half: "0 \<le> half" "half \<le> 127" and b: "int i + half \<le> 32766"
  shows "average_at rnd dat dataLen half i
     = Some (Inr (float_mean rnd (map ((!) dat) [i - nat half ..< min (length dat) (i + nat half + 1)])))"
proof -
  let ?j = "word_of_int (int i - half) :: s16"
  have sj: "sint ?j = int i - half"
    using half b by (intro sint_s16_of_int) linarith+
  have n0: "nat (sint ?j) = i - nat half" unfolding sj using half by linarith
  have ud: "uint dataLen = int (length dat)" using len by simp
  have X: "nat (min (int i + half + 1) (uint dataLen)) = min (length dat) (i + nat half + 1)"
    unfolding ud using half by linarith
  let ?js = "[i - nat half ..< min (length dat) (i + nat half + 1)]"
  have pre: "int i + half + 1 \<le> 32767" "unat dataLen \<le> length dat" "sint ?j \<le> int i + half + 1"
    using b len half unfolding sj by linarith+
  have "window_sum rnd dat dataLen (int i + half) (?j, 0, 0)
      = Some (Inr (foldl (\<lambda>s x. rnd (s + x)) 0 (map ((!) dat) ?js), 0 + of_nat (length ?js)))"
    using window_sum_result[OF pre, of rnd 0 0] unfolding n0 X .
  then have ws: "window_sum rnd dat dataLen (int i + half) (?j, 0, 0)
      = Some (Inr (float_sum rnd (map ((!) dat) ?js), of_nat (length ?js)))"
    by (simp add: float_sum_def)
  have l1: "1 \<le> length ?js" using i by simp
  have l2: "length ?js \<le> 255" using half by simp
  have un: "unat (of_nat (length ?js) :: u16) = length ?js"
    using l2 by (simp add: unat_of_nat take_bit_nat_eq_self)
  then have nz: "(of_nat (length ?js) :: u16) \<noteq> 0" using l1 by (metis unat_0 not_one_le_zero)
  show ?thesis
    unfolding average_at_def ws using nz un
    by (simp add: float_mean_def)
qed

lemma run_all_map:
  "(\<And>i. i \<in> set xs \<Longrightarrow> f i = Some (Inr (g i))) \<Longrightarrow> run_all (map f xs) = Some (Inr (map g xs))"
  by (induction xs) simp_all

lemma run_all_diverges:
  "(\<And>i. i \<in> set xs \<Longrightarrow> f i = Some (Inr (g i))) \<Longrightarrow> f y = None \<Longrightarrow>
   run_all (map f (xs @ y # ys)) = None"
  by (induction xs) simp_all

lemma float_sum_exact_aux: "foldl (\<lambda>s x. s + x) (a :: real) xs = a + sum_list xs"
  by (induction xs arbitrary: a) simp_all

lemma float_mean_exact: "float_mean (\<lambda>x. x) xs = sum_list xs / real (length xs)"
  by (simp add: float_mean_def float_sum_def float_sum_exact_aux)

lemma applyMovingAverage_returns:
  assumes len: "length dat = unat dataLen" and small: "unat dataLen \<le> 32762"
  shows "applyMovingAverage rnd dat dataLen 11 True
     = Some (Inr (map (\<lambda>i. float_mean rnd (map ((!) dat) [i - 5 ..< min (length dat) (i + 6)]))
                    [0 ..< length dat]))"
proof -
  let ?g = "\<lambda>i. float_mean rnd (map ((!) dat) [i - 5 ..< min (length dat) (i + 6)])"
  have h: "uint (11 :: byte) div 2 = 5" by simp
  have each: "average_at rnd dat dataLen 5 i = Some (Inr (?g i))" if "i \<in> set [0 ..< unat dataLen]" for i
  proof -
    from that have i: "i < length dat" using len by simp
    then have b: "int i + 5 \<le> 32766" using small len by linarith
    from average_at_result[OF len i _ _ b, of rnd] show ?thesis by (simp add: add.commute)
  qed
  have "run_all (map (average_at rnd dat dataLen 5) [0 ..< unat dataLen])
      = Some (Inr (map ?g [0 ..< unat dataLen]))"
    by (rule run_all_map) (rule each)
  then show ?thesis
    unfolding applyMovingAverage_def Let_def h using len by simp
qed

lemma applyMovingAverage_diverges:
  assumes len: "length dat = unat dataLen" and big: "32763 \<le> unat dataLen"
  shows "applyMovingAverage rnd dat dataLen 11 True = None"
proof -
  let ?g = "\<lambda>i. float_mean rnd (map ((!) dat) [i - 5 ..< min (length dat) (i + 6)])"
  have h: "uint (11 :: byte) div 2 = 5" by simp
  have each: "average_at rnd dat dataLen 5 i = Some (Inr (?g i))" if "i \<in> set [0 ..< 32762]" for i
  proof -
    from that have i: "i < length dat" and b: "int i + 5 \<le> 32766" using len big by simp_all
    from average_at_result[OF len i _ _ b, of rnd] show ?thesis by (simp add: add.commute)
  qed
  have "window_sum rnd dat dataLen (int 32762 + 5) (word_of_int (int 32762 - 5), 0, 0) \<noteq> Some r" for r
    using window_sum_diverges[of rnd dat dataLen "int 32762 + 5" "(word_of_int (int 32762 - 5), 0, 0)" r] len
    by auto
  then have "window_sum rnd dat dataLen (int 32762 + 5) (word_of_int (int 32762 - 5), 0, 0) = None"
    by (cases "window_sum rnd dat dataLen (int 32762 + 5) (word_of_int (int 32762 - 5), 0, 0)") auto
  then have stuck: "average_at rnd dat dataLen 5 32762 = None"
    unfolding average_at_def by (simp only: option.case)
  have split: "[0 ..< unat dataLen] = [0 ..< 32762] @ 32762 # [32763 ..< unat dataLen]"
  proof -
    have "[0 ..< unat dataLen] = [0 ..< 32762] @ [32762 ..< unat dataLen]"
      using big upt_add_eq_append[of 0 32762 "unat dataLen - 32762"] by simp
    moreover have "[32762 ..< unat dataLen] = 32762 # [32763 ..< unat dataLen]"
      using big by (simp add: upt_conv_Cons)
    ultimately show ?thesis by simp
  qed
  have "run_all (map (average_at rnd dat dataLen 5) [0 ..< unat dataLen]) = None"
    unfolding split by (rule run_all_diverges[where g = ?g]) (erule each, rule stuck)
  then show ?thesis
    unfolding applyMovingAverage_def Let_def h by simp
qed

text \<open>
  Claim C5, as amended.  When the scratch buffer is allocated and the array has at
  most 32762 entries, smoothing with window 11 returns, and replaces every entry \<open>i\<close> by
  the mean of the old entries at the indices \<open>j\<close> from \<open>i - 5\<close> to \<open>i + 5\<close> with
  \<open>0 <= j < H\<close>: their sum, added up in single precision in ascending order, divided by
  their number, which is at least 1; in exact arithmetic that is the arithmetic mean.
  Without scratch buffer the array is returned as it was.
\<close>

theorem applyMovingAverage_window_mean:
  assumes "length dat = unat dataLen" and "unat dataLen \<le> 32762"
  shows "(\<exists>out. applyMovingAverage rnd dat dataLen 11 True = Some (Inr out) \<and>
            length out = length dat \<and>
            (\<forall>i < length dat.
               let window = map ((!) dat) [i - 5 ..< min (length dat) (i + 6)]
               in out ! i = float_mean rnd window \<and> 1 \<le> length window \<and>
                  ((\<forall>x. rnd x = x) \<longrightarrow> out ! i = sum_list window / real (length window)))) \<and>
         applyMovingAverage rnd dat dataLen 11 False = Some (Inr dat)"
proof -
  let ?w = "\<lambda>i. map ((!) dat) [i - 5 ..< min (length dat) (i + 6)]"
  let ?out = "map (\<lambda>i. float_mean rnd (?w i)) [0 ..< length dat]"
  have a: "applyMovingAverage rnd dat dataLen 11 True = Some (Inr ?out)"
    by (rule applyMovingAverage_returns[OF assms])
  have b: "length ?out = length dat" by simp
  have c: "?out ! i = float_mean rnd (?w i)" if "i < length dat" for i
    using that by simp
  have d: "1 \<le> length (?w i)" if "i < length dat" for i
    using that by simp
  have e: "?out ! i = sum_list (?w i) / real (length (?w i))" if "i < length dat" "\<forall>x. rnd x = x" for i
  proof -
    from that(2) have "rnd = (\<lambda>x. x)" by (simp add: fun_eq_iff)
    then show ?thesis using c[OF that(1)] by (simp only: float_mean_exact)
  qed
  have f: "applyMovingAverage rnd dat dataLen 11 False = Some (Inr dat)"
    by (simp add: applyMovingAverage_def)
  have "\<exists>out. applyMovingAverage rnd dat dataLen 11 True = Some (Inr out) \<and>
            length out = length dat \<and>
            (\<forall>i < length dat.
               let window = ?w i
               in out ! i = float_mean rnd window \<and> 1 \<le> length window \<and>
                  ((\<forall>x. rnd x = x) \<longrightarrow> out ! i = sum_list window / real (length window)))"
    apply (rule exI[of _ ?out])
    unfolding Let_def using a b c d e by blast
  with f show ?thesis by (rule conjI[rotated])
qed

text \<open>
  Claim C5 as stated fails twice.  Without scratch buffer the array 0, 11 stays as it
  is, while both means are 11 / 2.  On an array of 32763 entries the call does not
  return: at index 32762 the inner loop runs while \<open>j <= 32767\<close>, which every 16-bit
  \<open>j\<close> satisfies.
\<close>

theorem applyMovingAverage_unsmoothed_counterexample:
  "applyMovingAverage (\<lambda>x. x) [0, 11] 2 11 False = Some (Inr [0, 11]) \<and>
   sum_list (map ((!) [0, 11 :: real]) [0 - 5 ..< min 2 (0 + 6)])
     / real (length (map ((!) [0, 11 :: real]) [0 - 5 ..< min 2 (0 + 6)])) = 11 / 2 \<and>
   applyMovingAverage (\<lambda>x. x) (replicate 32763 0) 32763 11 True = None"
proof -
  have a: "applyMovingAverage (\<lambda>x. x) [0, 11] 2 11 False = Some (Inr [0, 11])"
    by (simp add: applyMovingAverage_def)
  have u: "[0 - 5 ..< min 2 (0 + 6)] = [0, Suc 0]" by (simp add: upt_conv_Cons)
  have b: "sum_list (map ((!) [0, 11 :: real]) [0 - 5 ..< min 2 (0 + 6)])
     / real (length (map ((!) [0, 11 :: real]) [0 - 5 ..< min 2 (0 + 6)])) = 11 / 2"
    unfolding u by simp
  have "length (replicate 32763 (0 :: real)) = unat (32763 :: u16)" "32763 \<le> unat (32763 :: u16)"
    by simp_all
  from applyMovingAverage_diverges[OF this]
  have c: "applyMovingAverage (\<lambda>x. x) (replicate 32763 0) 32763 11 True = None" .
  from a b c show ?thesis by (intro conjI)
qed

theorem applyMovingAverage_window_mean_witness:
  "length [0, 11 :: real] = unat (2 :: u16) \<and> unat (2 :: u16) \<le> 32762 \<and>
   applyMovingAverage (\<lambda>x. x) [0, 11] 2 11 True = Some (Inr [11 / 2, 11 / 2]) \<and>
   applyMovingAverage (\<lambda>x. x) [0, 11] 2 11 False = Some (Inr [0, 11])"
proof -
  have p: "length [0, 11 :: real] = unat (2 :: u16)" "unat (2 :: u16) \<le> 32762" by simp_all
  note T = applyMovingAverage_window_mean[OF p, of "\<lambda>x. x"]
  from T have f: "applyMovingAverage (\<lambda>x. x) [0, 11] 2 11 False = Some (Inr [0, 11])"
    by (rule conjunct2)
  from T obtain out where o: "applyMovingAverage (\<lambda>x. x) [0, 11] 2 11 True = Some (Inr out)"
    and l: "length out = length [0, 11 :: real]"
    and m: "\<forall>i < length [0, 11 :: real].
               let window = map ((!) [0, 11 :: real]) [i - 5 ..< min (length [0, 11 :: real]) (i + 6)]
               in out ! i = float_mean (\<lambda>x. x) window \<and> 1 \<le> length window \<and>
                  ((\<forall>x :: real. x = x) \<longrightarrow> out ! i = sum_list window / real (length window))"
    by (elim conjE exE) (rule that)
  have u: "[0 - 5 ..< min 2 (0 + 6)] = [0, Suc 0]" "[1 - 5 ..< min 2 (1 + 6)] = [0, Suc 0]"
    by (simp_all add: upt_conv_Cons)
  have l2: "length [0, 11 :: real] = 2" by simp
  from m have "0 < length [0, 11 :: real] \<longrightarrow>
      out ! 0 = float_mean (\<lambda>x. x) (map ((!) [0, 11 :: real]) [0 - 5 ..< min (length [0, 11 :: real]) (0 + 6)])"
    unfolding Let_def by blast
  then have o0: "out ! 0 = 11 / 2"
    unfolding l2 u by (simp add: float_mean_def float_sum_def)
  from m have "1 < length [0, 11 :: real] \<longrightarrow>
      out ! 1 = float_mean (\<lambda>x. x) (map ((!) [0, 11 :: real]) [1 - 5 ..< min (length [0, 11 :: real]) (1 + 6)])"
    unfolding Let_def by blast
  then have o1: "out ! 1 = 11 / 2"
    unfolding l2 u by (simp add: float_mean_def float_sum_def)
  from l have "length out = Suc (Suc 0)" by simp
  then obtain a b where ab: "out = [a, b]"
    by (auto simp: length_Suc_conv)
  with o0 o1 have "out = [11 / 2, 11 / 2]" by simp
  with o f p show ?thesis by simp
qed

end
